theory Spec2Isabelle
  imports Main "HOL-Library.Word" "HOL-Library.Sublist"
begin

unbundle bit_operations_syntax

section \<open>Bytes, slices and struct packing\<close>

text \<open>
  A Python \<^verbatim>\<open>bytes\<close>/\<^verbatim>\<open>bytearray\<close> is a list of 8-bit words. Python integers are
  unbounded; every integer the modelled code computes from a buffer is non-negative and is
  a \<^typ>\<open>nat\<close>, except where the source subtracts (then \<^typ>\<open>int\<close>).
\<close>

type_synonym byte = "8 word"
type_synonym bytes = "byte list"

datatype error = StructError | UnicodeEncodeError

text \<open>\<^verbatim>\<open>data[lo:hi]\<close> for \<open>0 \<le> lo\<close>: Python clamps both bounds to the length.\<close>

definition slice :: "'a list \<Rightarrow> nat \<Rightarrow> nat \<Rightarrow> 'a list" where
  "slice d lo hi = take (hi - lo) (drop lo d)"

text \<open>
  \<^verbatim>\<open>data[lo:hi] = v\<close> on a bytearray: the bounds are clamped to the length, an empty
  or inverted range inserts at \<open>lo\<close>, and the buffer length changes by
  \<open>len(v) - (hi - lo)\<close>.
\<close>

definition slice_assign :: "'a list \<Rightarrow> nat \<Rightarrow> nat \<Rightarrow> 'a list \<Rightarrow> 'a list" where
  "slice_assign d lo hi v =
     (let lo' = min lo (length d); hi' = max lo' (min hi (length d))
      in take lo' d @ v @ drop hi' d)"

text \<open>\<^verbatim>\<open>struct.unpack\<close> raises \<^verbatim>\<open>struct.error\<close> unless the slice has the exact width.\<close>

fun unpack_u16le :: "bytes \<Rightarrow> nat option" where
  "unpack_u16le [a, b] = Some (unat a + 256 * unat b)"
| "unpack_u16le _ = None"

fun unpack_u16be :: "bytes \<Rightarrow> nat option" where
  "unpack_u16be [a, b] = Some (256 * unat a + unat b)"
| "unpack_u16be _ = None"

fun unpack_u32le :: "bytes \<Rightarrow> nat option" where
  "unpack_u32le [a, b, c, e] =
     Some (unat a + 256 * unat b + 65536 * unat c + 16777216 * unat e)"
| "unpack_u32le _ = None"

fun unpack_s16le :: "bytes \<Rightarrow> int option" where
  "unpack_s16le [a, b] =
     (let v = unat a + 256 * unat b in Some (if v \<ge> 32768 then int v - 65536 else int v))"
| "unpack_s16le _ = None"

fun unpack_s8 :: "bytes \<Rightarrow> int option" where
  "unpack_s8 [a] = (let v = unat a in Some (if v \<ge> 128 then int v - 256 else int v))"
| "unpack_s8 _ = None"

text \<open>\<^verbatim>\<open>struct.pack\<close> raises \<^verbatim>\<open>struct.error\<close> when the value does not fit.\<close>

definition pack_u16le :: "nat \<Rightarrow> bytes option" where
  "pack_u16le n =
     (if n < 65536 then Some [of_nat (n mod 256), of_nat (n div 256)] else None)"

definition pack_u16be :: "nat \<Rightarrow> bytes option" where
  "pack_u16be n =
     (if n < 65536 then Some [of_nat (n div 256), of_nat (n mod 256)] else None)"

definition pack_u32le :: "nat \<Rightarrow> bytes option" where
  "pack_u32le n =
     (if n < 4294967296
      then Some [of_nat (n mod 256), of_nat (n div 256 mod 256),
                 of_nat (n div 65536 mod 256), of_nat (n div 16777216)]
      else None)"

text \<open>
  \<^verbatim>\<open>str.encode('ascii')\<close> raises \<^verbatim>\<open>UnicodeEncodeError\<close> on a code point above 127;
  \<^verbatim>\<open>str.encode('utf-16le')\<close> writes a code point below 256 as the byte followed by 0.
\<close>

definition encode_ascii :: "string \<Rightarrow> bytes option" where
  "encode_ascii s =
     (if list_all (\<lambda>c. (of_char c :: nat) < 128) s
      then Some (map (\<lambda>c. of_nat (of_char c)) s) else None)"

definition encode_utf16le :: "string \<Rightarrow> bytes" where
  "encode_utf16le s = concat (map (\<lambda>c. [of_nat (of_char c), 0]) s)"

section \<open>CRC-CCITT (\<^verbatim>\<open>SCPAnonymizer.calculate_crc_ccitt\<close>)\<close>

definition crc_shift :: "nat \<Rightarrow> nat" where
  "crc_shift crc =
     (if crc AND 0x8000 \<noteq> 0 then (push_bit 1 crc) XOR 0x1021 else push_bit 1 crc) AND 0xFFFF"

fun crc_rounds :: "nat \<Rightarrow> nat \<Rightarrow> nat" where
  "crc_rounds 0 crc = crc"
| "crc_rounds (Suc k) crc = crc_rounds k (crc_shift crc)"

definition crc_byte :: "nat \<Rightarrow> byte \<Rightarrow> nat" where
  "crc_byte crc b = crc_rounds 8 (crc XOR push_bit 8 (unat b))"

definition calculate_crc_ccitt :: "bytes \<Rightarrow> nat" where
  "calculate_crc_ccitt data = foldl crc_byte 0xFFFF data"

section \<open>Finalisation (\<^verbatim>\<open>update_file_size\<close>, \<^verbatim>\<open>update_crc\<close>, \<^verbatim>\<open>save_anonymized\<close>)\<close>

definition update_file_size :: "bytes \<Rightarrow> error + bytes" where
  "update_file_size d =
     (case pack_u32le (length d) of
        None \<Rightarrow> Inl StructError
      | Some b \<Rightarrow> Inr (slice_assign d 2 6 b))"

definition update_crc :: "bytes \<Rightarrow> error + bytes" where
  "update_crc d =
     (case pack_u16le (calculate_crc_ccitt (slice d 2 (length d))) of
        None \<Rightarrow> Inl StructError
      | Some b \<Rightarrow> Inr (slice_assign d 0 2 b))"

text \<open>The bytes written to the output file: the size write, then the CRC write.\<close>

definition save_anonymized :: "bytes \<Rightarrow> error + bytes" where
  "save_anonymized d =
     (case update_file_size d of
        Inl e \<Rightarrow> Inl e
      | Inr d1 \<Rightarrow> update_crc d1)"


section \<open>The anonymizer (\<^verbatim>\<open>src/scp_anonymizer.py\<close>)\<close>

subsection \<open>\<^verbatim>\<open>find_and_replace_text\<close>\<close>

text \<open>
  \<^verbatim>\<open>bytearray.find(sub, start)\<close>: the lowest index \<open>\<ge> start\<close> at which \<open>sub\<close> occurs,
  \<open>None\<close> for Python's \<open>-1\<close>.
\<close>

function find_bytes :: "bytes \<Rightarrow> bytes \<Rightarrow> nat \<Rightarrow> nat option" where
  "find_bytes d sub i =
     (if i + length sub \<le> length d
      then (if slice d i (i + length sub) = sub then Some i else find_bytes d sub (i + 1))
      else None)"
  by pat_completeness auto
termination
  by (relation "measure (\<lambda>(d, sub, i). length d + 1 - i)") auto

text \<open>
  The \<^verbatim>\<open>while True\<close> loop of \<^verbatim>\<open>find_and_replace_text\<close>, with the buffer and the
  counter passed along. The loop has no bound of its own (an empty \<open>search_bytes\<close> is
  found again at the same index for ever), so not returning is the value \<open>None\<close>.
\<close>

definition replace_padded :: "bytes \<Rightarrow> bytes \<Rightarrow> bytes" where
  "replace_padded search_bytes replace_bytes =
     (let rp = take (length search_bytes) replace_bytes
      in if length rp < length search_bytes
         then rp @ replicate (length search_bytes - length rp) 0 else rp)"

partial_function (option) replace_loop ::
  "bytes \<Rightarrow> bytes \<Rightarrow> nat \<Rightarrow> nat \<Rightarrow> bytes \<Rightarrow> (bytes \<times> nat) option" where
  "replace_loop search_bytes replace_bytes index count d =
     (case find_bytes d search_bytes index of
        None \<Rightarrow> Some (d, count)
      | Some i \<Rightarrow>
          replace_loop search_bytes replace_bytes (i + length search_bytes) (count + 1)
            (slice_assign d i (i + length search_bytes)
               (replace_padded search_bytes replace_bytes)))"

definition find_and_replace_text :: "bytes \<Rightarrow> bytes \<Rightarrow> bytes \<Rightarrow> (bytes \<times> nat) option" where
  "find_and_replace_text search_bytes replace_bytes d =
     replace_loop search_bytes replace_bytes 0 0 d"

subsection \<open>\<^verbatim>\<open>_anonymize_section_1_tags\<close>\<close>

definition sensitive_tags :: "nat list" where
  "sensitive_tags = [2, 6, 7, 8, 9, 10]"

definition removed_bytes :: "nat \<Rightarrow> bytes" where
  "removed_bytes tag_length =
     take tag_length
       (concat (replicate (tag_length div 8 + 1) [0x52, 0x45, 0x4D, 0x4F, 0x56, 0x45, 0x44, 0x00]))"

text \<open>
  The body of \<^verbatim>\<open>if tag in sensitive_tags\<close>. \<open>Inr\<close> is the buffer after the branch ran
  to its end; \<open>Inl\<close> is the buffer at the moment an exception left the branch for the
  \<^verbatim>\<open>except\<close> handler (writes made before the exception stay).
\<close>

definition redact_tag :: "string \<Rightarrow> nat \<Rightarrow> nat \<Rightarrow> nat \<Rightarrow> bytes \<Rightarrow> bytes + bytes" where
  "redact_tag anonymous_id pointer tag tag_length d =
     (let value_start = pointer + 3;
          value_end = min (value_start + tag_length) (length d)
      in if tag = 2 then
           (case encode_ascii anonymous_id of
              None \<Rightarrow> Inl d
            | Some a \<Rightarrow>
                let anon_bytes = take tag_length a;
                    anon_bytes = anon_bytes @ replicate (tag_length - length anon_bytes) 0
                in Inr (slice_assign d value_start value_end anon_bytes))
         else if tag \<in> set [6, 7, 8, 9] then
           Inr (slice_assign d value_start value_end (removed_bytes tag_length))
         else if tag = 10 then
           (if tag_length \<ge> 4 then
              (case pack_u16be 1900 of
                 None \<Rightarrow> Inl d
               | Some y \<Rightarrow>
                   let d1 = slice_assign d value_start (value_start + 2) y
                   in if value_start + 2 < length d1 then
                        (let d2 = d1[value_start + 2 := 1]
                         in if value_start + 3 < length d2
                            then Inr (d2[value_start + 3 := 1]) else Inl d2)
                      else Inl d1)
            else Inr d)
         else Inr d)"

function tags_loop :: "string \<Rightarrow> int \<Rightarrow> nat \<Rightarrow> bytes \<Rightarrow> bytes" where
  "tags_loop anonymous_id end pointer d =
     (if int pointer < end - 3 then
        (if pointer < length d then
           (let tag = unat (d ! pointer) in
            if tag = 255 then d
            else
              (case unpack_u16le (slice d (pointer + 1) (pointer + 3)) of
                 None \<Rightarrow> tags_loop anonymous_id end (pointer + 1) d
               | Some tag_length \<Rightarrow>
                   if tag \<in> set sensitive_tags then
                     (case redact_tag anonymous_id pointer tag tag_length d of
                        Inl d' \<Rightarrow> tags_loop anonymous_id end (pointer + 1) d'
                      | Inr d' \<Rightarrow> tags_loop anonymous_id end (pointer + 3 + tag_length) d')
                   else tags_loop anonymous_id end (pointer + 3 + tag_length) d))
         else tags_loop anonymous_id end (pointer + 1) d)
      else d)"
  by pat_completeness auto
termination
  by (relation "measure (\<lambda>(a, e, p, d). nat (e - int p))") auto

definition anonymize_section_1_tags :: "string \<Rightarrow> nat \<Rightarrow> int \<Rightarrow> bytes \<Rightarrow> bytes" where
  "anonymize_section_1_tags anonymous_id start_offset len d =
     tags_loop anonymous_id (min (int start_offset + len) (int (length d))) start_offset d"

subsection \<open>\<^verbatim>\<open>_anonymize_section_1\<close>: the best-effort Section 1 locator\<close>

text \<open>
  The two header reads of the loop body: \<^verbatim>\<open>section_id\<close> at the pointer,
  \<^verbatim>\<open>section_size\<close> two bytes after it.
\<close>

definition anonymizer_header :: "bytes \<Rightarrow> nat \<Rightarrow> nat option \<times> nat option" where
  "anonymizer_header d pointer =
     (unpack_u16le (slice d pointer (pointer + 2)),
      unpack_u32le (slice d (pointer + 2) (pointer + 6)))"

function section_1_loop :: "string \<Rightarrow> nat \<Rightarrow> bytes \<Rightarrow> bytes" where
  "section_1_loop anonymous_id pointer d =
     (if int pointer < int (length d) - 10 then
        (case fst (anonymizer_header d pointer) of
           None \<Rightarrow> section_1_loop anonymous_id (pointer + 1) d
         | Some section_id \<Rightarrow>
             (case snd (anonymizer_header d pointer) of
                None \<Rightarrow> section_1_loop anonymous_id (pointer + 1) d
              | Some section_size \<Rightarrow>
                  if section_id = 1 \<and> section_size < length d then
                    anonymize_section_1_tags anonymous_id (pointer + 8) (int section_size - 8) d
                  else if section_size > 0 \<and> section_size < length d then
                    section_1_loop anonymous_id (pointer + section_size) d
                  else section_1_loop anonymous_id (pointer + 1) d))
      else d)"
  by pat_completeness auto
termination
  by (relation "measure (\<lambda>(a, p, d). length d - p)") auto

definition anonymize_section_1 :: "string \<Rightarrow> bytes \<Rightarrow> bytes" where
  "anonymize_section_1 anonymous_id d = section_1_loop anonymous_id 6 d"


subsection \<open>\<^verbatim>\<open>anonymize_patient_data\<close> and \<^verbatim>\<open>anonymize\<close>\<close>

text \<open>
  The append-only log \<^verbatim>\<open>changes_made\<close> is written but never read by the modelled code and
  is left out; the counts returned by \<^verbatim>\<open>find_and_replace_text\<close> feed only that log.
  A run either does not return (\<open>None\<close>), raises (\<open>Some (Inl e)\<close>) or returns
  (\<open>Some (Inr x)\<close>).
\<close>

definition original_ids :: "string list" where
  "original_ids =
     [''197001138994'', ''191010101010'', ''123456789'',
      ''1970011389'', ''1910101010'', ''12345678'']"

definition replace_id :: "string \<Rightarrow> string \<Rightarrow> bytes \<Rightarrow> (error + bytes) option" where
  "replace_id anonymous_id original_id d =
     (case encode_ascii original_id of
        None \<Rightarrow> Some (Inl UnicodeEncodeError)
      | Some s \<Rightarrow>
          (case encode_ascii anonymous_id of
             None \<Rightarrow> Some (Inl UnicodeEncodeError)
           | Some r \<Rightarrow>
               (case find_and_replace_text s r d of
                  None \<Rightarrow> None
                | Some (d1, count1) \<Rightarrow>
                    (case find_and_replace_text (encode_utf16le original_id)
                            (encode_utf16le anonymous_id) d1 of
                       None \<Rightarrow> None
                     | Some (d2, count2) \<Rightarrow> Some (Inr d2)))))"

fun replace_ids :: "string \<Rightarrow> string list \<Rightarrow> bytes \<Rightarrow> (error + bytes) option" where
  "replace_ids anonymous_id [] d = Some (Inr d)"
| "replace_ids anonymous_id (original_id # ids) d =
     (case replace_id anonymous_id original_id d of
        None \<Rightarrow> None
      | Some (Inl e) \<Rightarrow> Some (Inl e)
      | Some (Inr d') \<Rightarrow> replace_ids anonymous_id ids d')"

definition anonymize_patient_data :: "string \<Rightarrow> bytes \<Rightarrow> (error + bytes) option" where
  "anonymize_patient_data anonymous_id d =
     (case replace_ids anonymous_id original_ids d of
        None \<Rightarrow> None
      | Some (Inl e) \<Rightarrow> Some (Inl e)
      | Some (Inr d1) \<Rightarrow>
          (case find_and_replace_text [0x74, 0x65, 0x73, 0x74] [0x41, 0x4E, 0x4F, 0x4E] d1 of
             None \<Rightarrow> None
           | Some (d2, count) \<Rightarrow> Some (Inr (anonymize_section_1 anonymous_id d2))))"

text \<open>\<^verbatim>\<open>__init__\<close>: \<^verbatim>\<open>anonymous_id or "ANON000000"\<close>.\<close>

definition init_anonymous_id :: "string option \<Rightarrow> string" where
  "init_anonymous_id anonymous_id =
     (case anonymous_id of
        None \<Rightarrow> ''ANON000000''
      | Some a \<Rightarrow> if a = [] then ''ANON000000'' else a)"

text \<open>
  \<^verbatim>\<open>anonymize\<close> on the bytes of the input file; the result is the bytes written to the
  output file.
\<close>

definition anonymize :: "string option \<Rightarrow> bytes \<Rightarrow> (error + bytes) option" where
  "anonymize anonymous_id file =
     (case anonymize_patient_data (init_anonymous_id anonymous_id) file of
        None \<Rightarrow> None
      | Some (Inl e) \<Rightarrow> Some (Inl e)
      | Some (Inr d) \<Rightarrow> Some (save_anonymized d))"

section \<open>The reader (\<^verbatim>\<open>src/scp_reader.py\<close>)\<close>

datatype ecg = Decoded "int list list" | Synthetic nat nat

record section_info =
  sec_size :: nat
  sec_version :: nat
  sec_protocol :: nat
  sec_data_start :: nat
  sec_data :: bytes

record reader =
  sections :: "nat \<rightharpoonup> section_info"
  ecg_data :: "ecg option"
  leads :: "string list"
  sampling_rate :: nat

definition lead_names :: "string list" where
  "lead_names = [''I'', ''II'', ''III'', ''aVR'', ''aVL'', ''aVF'',
                 ''V1'', ''V2'', ''V3'', ''V4'', ''V5'', ''V6'']"

definition init_reader :: reader where
  "init_reader = \<lparr>sections = Map.empty, ecg_data = None, leads = [], sampling_rate = 500\<rparr>"

text \<open>
  \<^verbatim>\<open>_generate_sample_data\<close> fills a 12 by \<open>10 * sampling_rate\<close> matrix with random
  noise around synthetic beats; only its shape is kept.
\<close>

definition generate_sample_data :: "reader \<Rightarrow> reader" where
  "generate_sample_data r =
     r\<lparr>ecg_data := Some (Synthetic 12 (10 * sampling_rate r)),
       leads := (if leads r = [] then lead_names else leads r)\<rparr>"

subsection \<open>\<^verbatim>\<open>_parse_lead_info\<close>\<close>

fun decimal :: "nat \<Rightarrow> string" where
  "decimal n =
     (if n < 10 then [char_of (48 + n)] else decimal (n div 10) @ [char_of (48 + n mod 10)])"

definition parse_lead_info :: "bytes \<Rightarrow> reader \<Rightarrow> reader" where
  "parse_lead_info data r =
     (case data of
        [] \<Rightarrow> r\<lparr>leads := lead_names\<rparr>
      | b # _ \<Rightarrow>
          let num_leads = unat b;
              lead_spec_start = 1 + num_leads * 2;
              ls = leads r @
                   map (\<lambda>i. lead_names ! i)
                     (filter (\<lambda>i. lead_spec_start + i < length data) [0..<min num_leads 12])
          in r\<lparr>leads := (if ls = []
                         then map (\<lambda>i. ''Lead '' @ decimal (i + 1)) [0..<min num_leads 12]
                         else ls)\<rparr>)"

subsection \<open>\<^verbatim>\<open>_parse_rhythm_data\<close>\<close>

text \<open>
  The raw-mode loop \<^verbatim>\<open>for j in range(k)\<close> and the delta-mode loop, each returning the
  pointer and the samples of the lead. The reads are guarded as in the source.
\<close>

fun read_raw :: "nat \<Rightarrow> bytes \<Rightarrow> nat \<Rightarrow> int list \<Rightarrow> nat \<times> int list" where
  "read_raw 0 d p lead_samples = (p, lead_samples)"
| "read_raw (Suc k) d p lead_samples =
     (if p + 2 \<le> length d then
        (case unpack_s16le (slice d p (p + 2)) of
           Some sample \<Rightarrow> read_raw k d (p + 2) (lead_samples @ [sample])
         | None \<Rightarrow> read_raw k d p lead_samples)
      else read_raw k d p lead_samples)"

fun read_deltas :: "nat \<Rightarrow> bytes \<Rightarrow> nat \<Rightarrow> int list \<Rightarrow> nat \<times> int list" where
  "read_deltas 0 d p lead_samples = (p, lead_samples)"
| "read_deltas (Suc k) d p lead_samples =
     (if p < length d then
        (case unpack_s8 (slice d p (p + 1)) of
           Some diff \<Rightarrow>
             read_deltas k d (p + 1)
               (if lead_samples \<noteq> [] then lead_samples @ [last lead_samples + diff]
                else lead_samples)
         | None \<Rightarrow> read_deltas k d p lead_samples)
      else read_deltas k d p lead_samples)"

definition read_lead :: "nat \<Rightarrow> bytes \<Rightarrow> nat \<Rightarrow> nat \<times> int list" where
  "read_lead compression d p0 =
     (let (num_samples, p1) =
            (if p0 + 4 \<le> length d
             then (case unpack_u32le (slice d p0 (p0 + 4)) of
                     Some n \<Rightarrow> (n, p0 + 4) | None \<Rightarrow> (5000, p0))
             else (5000, p0))
      in if compression = 0 then
           read_raw (nat (min (int num_samples) ((int (length d) - int p1) div 2))) d p1 []
         else
           (let (p2, lead_samples) =
                  (if p1 + 2 \<le> length d
                   then (case unpack_s16le (slice d p1 (p1 + 2)) of
                           Some reference \<Rightarrow> (p1 + 2, [reference]) | None \<Rightarrow> (p1, []))
                   else (p1, []))
            in read_deltas (nat (min (int num_samples - 1) (int (length d) - int p2)))
                 d p2 lead_samples))"

fun read_leads :: "nat \<Rightarrow> nat \<Rightarrow> bytes \<Rightarrow> nat \<Rightarrow> int list list \<Rightarrow> int list list" where
  "read_leads 0 compression d p lead_data = lead_data"
| "read_leads (Suc n) compression d p lead_data =
     (let (p', lead_samples) = read_lead compression d p
      in read_leads n compression d p'
           (if lead_samples \<noteq> [] then lead_data @ [lead_samples] else lead_data))"

text \<open>
  \<^verbatim>\<open>np.zeros((num_leads, max_length))\<close> with row \<open>i\<close> filled from the \<open>i\<close>-th decoded
  lead. The samples are small integers, which the float matrix holds exactly.
\<close>

definition ecg_matrix :: "nat \<Rightarrow> int list list \<Rightarrow> int list list" where
  "ecg_matrix num_leads lead_data =
     (let max_length = foldr (\<lambda>ld m. max (length ld) m) lead_data 0
      in map (\<lambda>ld. ld @ replicate (max_length - length ld) 0) lead_data @
         replicate (num_leads - length lead_data) (replicate max_length 0))"

text \<open>
  The header reads raise on a payload shorter than 8 bytes; the handler then calls
  \<^verbatim>\<open>_generate_sample_data\<close>. The sampling rate is assigned before the later reads.
\<close>

definition parse_rhythm_data :: "bytes \<Rightarrow> reader \<Rightarrow> reader" where
  "parse_rhythm_data d r =
     (case unpack_u16le (slice d 0 2) of
        None \<Rightarrow> generate_sample_data r
      | Some amplitude_value \<Rightarrow>
          (case unpack_u16le (slice d 2 4) of
             None \<Rightarrow> generate_sample_data r
           | Some sample_interval \<Rightarrow>
               let r1 = (if sample_interval > 0
                         then r\<lparr>sampling_rate := 1000000 div sample_interval\<rparr> else r)
               in if length d < 6 then generate_sample_data r1
                  else
                    (let compression = unat (d ! 5) in
                     case unpack_u16le (slice d 6 8) of
                       None \<Rightarrow> generate_sample_data r1
                     | Some n \<Rightarrow>
                         let num_leads = (if n = 0 \<or> n > 12 then 12 else n);
                             lead_data = read_leads num_leads compression d 10 []
                         in if lead_data \<noteq> []
                            then r1\<lparr>ecg_data := Some (Decoded (ecg_matrix num_leads lead_data))\<rparr>
                            else r1)))"


subsection \<open>\<^verbatim>\<open>_parse_sections\<close> and \<^verbatim>\<open>read_file\<close>\<close>

definition reader_header :: "bytes \<Rightarrow> nat \<Rightarrow> nat option \<times> nat option" where
  "reader_header d pointer =
     (unpack_u16le (slice d pointer (pointer + 2)),
      unpack_u32le (slice d (pointer + 2) (pointer + 6)))"

text \<open>
  The section walk. Any exception in the body ends the walk (\<^verbatim>\<open>except: break\<close>); the
  sub-parsers catch their own. \<^verbatim>\<open>_parse_patient_data\<close> writes only the patient and
  device dictionaries, which nothing modelled here reads, and lets no exception out: it
  is the identity on this state. The loop has no bound of its own, so not returning is
  the value \<open>None\<close>.
\<close>

partial_function (option) parse_sections_loop :: "bytes \<Rightarrow> nat \<Rightarrow> reader \<Rightarrow> reader option" where
  "parse_sections_loop d pointer r =
     (if int pointer < int (length d) - 10 then
        (case fst (reader_header d pointer) of
           None \<Rightarrow> Some r
         | Some section_id \<Rightarrow>
             (case snd (reader_header d pointer) of
                None \<Rightarrow> Some r
              | Some section_size \<Rightarrow>
                  if pointer + 7 < length d then
                    (if section_id = 0 then Some r
                     else
                       parse_sections_loop d (pointer + section_size)
                         (let sec = \<lparr>sec_size = section_size,
                                     sec_version = unat (d ! (pointer + 6)),
                                     sec_protocol = unat (d ! (pointer + 7)),
                                     sec_data_start = pointer + 8,
                                     sec_data = slice d (pointer + 8) (pointer + section_size)\<rparr>;
                              r1 = r\<lparr>sections := (sections r)(section_id \<mapsto> sec)\<rparr>
                          in if section_id = 1 then r1
                             else if section_id = 3 then parse_lead_info (sec_data sec) r1
                             else if section_id = 6 then parse_rhythm_data (sec_data sec) r1
                             else r1))
                  else Some r))
      else Some r)"

definition parse_sections :: "bytes \<Rightarrow> reader \<Rightarrow> reader option" where
  "parse_sections d r = parse_sections_loop d 6 r"

definition extract_ecg_data :: "reader \<Rightarrow> reader" where
  "extract_ecg_data r =
     (case ecg_data r of
        None \<Rightarrow> generate_sample_data r
      | Some (Decoded m) \<Rightarrow> if concat m = [] then generate_sample_data r else r
      | Some (Synthetic rows cols) \<Rightarrow> if rows * cols = 0 then generate_sample_data r else r)"

text \<open>\<^verbatim>\<open>read_file\<close> on the bytes of the file: header, section walk, fallback.\<close>

definition read_file :: "bytes \<Rightarrow> (error + reader) option" where
  "read_file d =
     (case unpack_u16le (slice d 0 2) of
        None \<Rightarrow> Some (Inl StructError)
      | Some crc \<Rightarrow>
          (case unpack_u32le (slice d 2 6) of
             None \<Rightarrow> Some (Inl StructError)
           | Some file_size \<Rightarrow>
               (case parse_sections d init_reader of
                  None \<Rightarrow> None
                | Some r \<Rightarrow> Some (Inr (extract_ecg_data r)))))"

section \<open>The verifier's section walk (\<^verbatim>\<open>src/anonymization_verifier.py\<close>)\<close>

definition verifier_header :: "bytes \<Rightarrow> nat \<Rightarrow> nat option \<times> nat option" where
  "verifier_header d pointer =
     (unpack_u16le (slice d (pointer + 2) (pointer + 4)),
      unpack_u32le (slice d (pointer + 4) (pointer + 8)))"

text \<open>\<^verbatim>\<open>_find_section\<close>: no handler here, a failed read would leave the function.\<close>

function find_section_loop :: "bytes \<Rightarrow> nat \<Rightarrow> nat \<Rightarrow> error + bytes option" where
  "find_section_loop d section_id pointer =
     (if int pointer < int (length d) - 16 then
        (case fst (verifier_header d pointer) of
           None \<Rightarrow> Inl StructError
         | Some sid \<Rightarrow>
             (case snd (verifier_header d pointer) of
                None \<Rightarrow> Inl StructError
              | Some sz \<Rightarrow>
                  if sid = section_id \<and> sz < length d then Inr (Some (slice d pointer (pointer + sz)))
                  else if sz > 0 then find_section_loop d section_id (pointer + sz)
                  else Inr None))
      else Inr None)"
  by pat_completeness auto
termination
  by (relation "measure (\<lambda>(d, s, p). length d - p)") auto

definition find_section :: "bytes \<Rightarrow> nat \<Rightarrow> error + bytes option" where
  "find_section d section_id = find_section_loop d section_id 6"


section \<open>Concrete files\<close>

text \<open>A five-byte file: shorter than the six-byte header.\<close>

definition short_file :: bytes where
  "short_file = [0, 0, 0, 0, 0]"

text \<open>
  A file whose only section has id 2 and declared size 0 (Reader layout: id at the
  pointer, size two bytes after it).
\<close>

definition zero_size_file :: bytes where
  "zero_size_file = [0x00, 0x00, 0x18, 0x00, 0x00, 0x00,
     0x02, 0x00, 0x00, 0x00, 0x00, 0x00, 0x01, 0x01,
     0x00, 0x00, 0x00, 0x00, 0x00, 0x00, 0x00, 0x00, 0x00, 0x00]"

text \<open>
  A file whose only section is Section 6 at bytes \<open>[6,32)\<close>: raw mode, one lead, sample
  interval 2000 microseconds, two samples whose four bytes are \<^verbatim>\<open>74 65 73 74\<close>
  (25972 and 29811). The second file is what \<^verbatim>\<open>anonymize\<close> writes for it.
\<close>

definition waveform_file :: bytes where
  "waveform_file = [0x00, 0x00, 0x20, 0x00, 0x00, 0x00,
     0x06, 0x00, 0x1A, 0x00, 0x00, 0x00, 0x01, 0x01,
     0x01, 0x00, 0xD0, 0x07, 0x00, 0x00, 0x01, 0x00, 0x02, 0x00,
     0x02, 0x00, 0x00, 0x00, 0x74, 0x65, 0x73, 0x74]"

definition waveform_file_anonymized :: bytes where
  "waveform_file_anonymized = [0xB1, 0x7A, 0x20, 0x00, 0x00, 0x00,
     0x06, 0x00, 0x1A, 0x00, 0x00, 0x00, 0x01, 0x01,
     0x01, 0x00, 0xD0, 0x07, 0x00, 0x00, 0x01, 0x00, 0x02, 0x00,
     0x02, 0x00, 0x00, 0x00, 0x41, 0x4E, 0x4F, 0x4E]"

text \<open>
  A file whose Section 1 (at byte 6, size 35) holds tag 21 = \<^verbatim>\<open>Who\<close> at \<open>[17,20)\<close>,
  tag 22 = \<^verbatim>\<open>Al\<close> at \<open>[23,25)\<close>, tag 25 = 2017-05-04 at \<open>[28,32)\<close>, tag 26 = 16:35:07 at
  \<open>[35,38)\<close> and the terminator. The second file is what \<^verbatim>\<open>anonymize\<close> writes for it.
\<close>

definition staff_file :: bytes where
  "staff_file = [0x00, 0x00, 0x29, 0x00, 0x00, 0x00,
     0x01, 0x00, 0x23, 0x00, 0x00, 0x00, 0x01, 0x01,
     0x15, 0x03, 0x00, 0x57, 0x68, 0x6F,
     0x16, 0x02, 0x00, 0x41, 0x6C,
     0x19, 0x04, 0x00, 0x07, 0xE1, 0x05, 0x04,
     0x1A, 0x03, 0x00, 0x10, 0x23, 0x07,
     0xFF, 0x00, 0x00]"

definition staff_file_anonymized :: bytes where
  "staff_file_anonymized = [0xB3, 0xC2, 0x29, 0x00, 0x00, 0x00,
     0x01, 0x00, 0x23, 0x00, 0x00, 0x00, 0x01, 0x01,
     0x15, 0x03, 0x00, 0x57, 0x68, 0x6F,
     0x16, 0x02, 0x00, 0x41, 0x6C,
     0x19, 0x04, 0x00, 0x07, 0xE1, 0x05, 0x04,
     0x1A, 0x03, 0x00, 0x10, 0x23, 0x07,
     0xFF, 0x00, 0x00]"

text \<open>
  The scenario file of the specification: Section 1 (at byte 6, size 45) with tag 2 =
  \<^verbatim>\<open>123456789\<close> at \<open>[17,26)\<close>, tag 8 = \<^verbatim>\<open>Smith\<close> at \<open>[29,34)\<close>, tag 9 = \<^verbatim>\<open>John\<close> at
  \<open>[37,41)\<close>, tag 10 = 1970-05-20 at \<open>[44,48)\<close> and the terminator; and what \<^verbatim>\<open>anonymize\<close>
  writes for it with the anonymous id \<^verbatim>\<open>ANON000001\<close>.
\<close>

definition scenario_file :: bytes where
  "scenario_file = [0x00, 0x00, 0x33, 0x00, 0x00, 0x00,
     0x01, 0x00, 0x2D, 0x00, 0x00, 0x00, 0x14, 0x14,
     0x02, 0x09, 0x00, 0x31, 0x32, 0x33, 0x34, 0x35, 0x36, 0x37, 0x38, 0x39,
     0x08, 0x05, 0x00, 0x53, 0x6D, 0x69, 0x74, 0x68,
     0x09, 0x04, 0x00, 0x4A, 0x6F, 0x68, 0x6E,
     0x0A, 0x04, 0x00, 0x07, 0xB2, 0x05, 0x14,
     0xFF, 0x00, 0x00]"

definition scenario_file_anonymized :: bytes where
  "scenario_file_anonymized = [0x9E, 0x44, 0x33, 0x00, 0x00, 0x00,
     0x01, 0x00, 0x2D, 0x00, 0x00, 0x00, 0x14, 0x14,
     0x02, 0x09, 0x00, 0x41, 0x4E, 0x4F, 0x4E, 0x30, 0x30, 0x30, 0x30, 0x30,
     0x08, 0x05, 0x00, 0x52, 0x45, 0x4D, 0x4F, 0x56,
     0x09, 0x04, 0x00, 0x52, 0x45, 0x4D, 0x4F,
     0x0A, 0x04, 0x00, 0x07, 0x6C, 0x01, 0x01,
     0xFF, 0x00, 0x00]"

text \<open>
  A file whose Section 1 holds tag 8 = \<^verbatim>\<open>Washington\<close> (length 10) at \<open>[17,27)\<close>, and what
  \<^verbatim>\<open>anonymize\<close> writes for it.
\<close>

definition name_file :: bytes where
  "name_file = [0x00, 0x00, 0x1E, 0x00, 0x00, 0x00,
     0x01, 0x00, 0x18, 0x00, 0x00, 0x00, 0x01, 0x01,
     0x08, 0x0A, 0x00, 0x57, 0x61, 0x73, 0x68, 0x69, 0x6E, 0x67, 0x74, 0x6F, 0x6E,
     0xFF, 0x00, 0x00]"

definition name_file_anonymized :: bytes where
  "name_file_anonymized = [0x15, 0x83, 0x1E, 0x00, 0x00, 0x00,
     0x01, 0x00, 0x18, 0x00, 0x00, 0x00, 0x01, 0x01,
     0x08, 0x0A, 0x00, 0x52, 0x45, 0x4D, 0x4F, 0x56, 0x45, 0x44, 0x00, 0x52, 0x45,
     0xFF, 0x00, 0x00]"



text \<open>
  Two 19-byte files whose Section 1 declares size 13 and whose only tag starts at byte
  14 and declares more value bytes than the file holds: tag 10 with length 4 (two value
  bytes present), and tag 8 with length 5 (two value bytes present); and what
  \<^verbatim>\<open>anonymize\<close> writes for each.
\<close>

definition dob_tail_file :: bytes where
  "dob_tail_file = [0x00, 0x00, 0x13, 0x00, 0x00, 0x00,
     0x01, 0x00, 0x0D, 0x00, 0x00, 0x00, 0x01, 0x01,
     0x0A, 0x04, 0x00, 0x07, 0xB2]"

definition dob_tail_file_anonymized :: bytes where
  "dob_tail_file_anonymized = [0x0B, 0xC3, 0x13, 0x00, 0x00, 0x00,
     0x01, 0x00, 0x0D, 0x00, 0x00, 0x00, 0x01, 0x01,
     0x0A, 0x04, 0x00, 0x07, 0x6C]"

definition name_tail_file :: bytes where
  "name_tail_file = [0x00, 0x00, 0x13, 0x00, 0x00, 0x00,
     0x01, 0x00, 0x0D, 0x00, 0x00, 0x00, 0x01, 0x01,
     0x08, 0x05, 0x00, 0x53, 0x6D]"

definition name_tail_file_anonymized :: bytes where
  "name_tail_file_anonymized = [0x84, 0xFD, 0x16, 0x00, 0x00, 0x00,
     0x01, 0x00, 0x0D, 0x00, 0x00, 0x00, 0x01, 0x01,
     0x08, 0x05, 0x00, 0x52, 0x45, 0x4D, 0x4F, 0x56]"

section \<open>Statements of the specification\<close>

text \<open>
  The delta-mode layout of one lead in the words of the specification: the four-byte
  sample count \<open>n\<close>, the little-endian signed 16-bit reference sample, then \<open>n - 1\<close>
  signed 8-bit deltas; and the waveform it stands for, every delta added to the running
  value. A lead is the pair of its reference sample and its deltas.
\<close>

definition le16 :: "nat \<Rightarrow> bytes" where
  "le16 n = [of_nat (n mod 256), of_nat (n div 256 mod 256)]"

definition le32 :: "nat \<Rightarrow> bytes" where
  "le32 n = [of_nat (n mod 256), of_nat (n div 256 mod 256),
             of_nat (n div 65536 mod 256), of_nat (n div 16777216 mod 256)]"

definition s16le :: "int \<Rightarrow> bytes" where
  "s16le v = le16 (nat (v mod 65536))"

definition s8 :: "int \<Rightarrow> byte" where
  "s8 v = of_nat (nat (v mod 256))"

fun running :: "int \<Rightarrow> int list \<Rightarrow> int list" where
  "running v [] = []"
| "running v (x # xs) = (v + x) # running (v + x) xs"

definition delta_decoded :: "int \<times> int list \<Rightarrow> int list" where
  "delta_decoded l = fst l # running (fst l) (snd l)"

definition delta_lead_bytes :: "int \<times> int list \<Rightarrow> bytes" where
  "delta_lead_bytes l = le32 (length (snd l) + 1) @ s16le (fst l) @ map s8 (snd l)"

definition delta_lead_ok :: "int \<times> int list \<Rightarrow> bool" where
  "delta_lead_ok l =
     (- 32768 \<le> fst l \<and> fst l < 32768 \<and> length (snd l) + 1 < 4294967296 \<and>
      list_all (\<lambda>x. - 128 \<le> x \<and> x < 128) (snd l))"



text \<open>
  The tags of a Section 1 payload as the loop of \<^verbatim>\<open>_anonymize_section_1_tags\<close> steps
  through them, read without writing: offset, id and declared length of each.
  \<open>tags_in_range\<close> says that every tag among them that the anonymizer redacts has its
  declared value range \<open>[offset + 3, offset + 3 + length)\<close> inside the buffer.
\<close>

function section_1_tags :: "int \<Rightarrow> nat \<Rightarrow> bytes \<Rightarrow> (nat \<times> nat \<times> nat) list" where
  "section_1_tags e p d =
     (if int p < e - 3 \<and> p < length d then
        (let tag = unat (d ! p) in
         if tag = 255 then []
         else
           (case unpack_u16le (slice d (p + 1) (p + 3)) of
              None \<Rightarrow> []
            | Some tag_length \<Rightarrow> (p, tag, tag_length) # section_1_tags e (p + 3 + tag_length) d))
      else [])"
  by pat_completeness auto
termination
  by (relation "measure (\<lambda>(e, p, d). nat (e - int p))") auto

definition tags_in_range :: "int \<Rightarrow> nat \<Rightarrow> bytes \<Rightarrow> bool" where
  "tags_in_range e p d =
     list_all (\<lambda>(q, tag, n). tag \<in> set sensitive_tags \<longrightarrow> q + 3 + n \<le> length d)
       (section_1_tags e p d)"

text \<open>
  The marker text of the specification: the seven letters \<^verbatim>\<open>REMOVED\<close> repeated and
  truncated to \<open>n\<close> bytes.
\<close>

definition removed_text :: "nat \<Rightarrow> bytes" where
  "removed_text n =
     take n (concat (replicate (n div 7 + 1) [0x52, 0x45, 0x4D, 0x4F, 0x56, 0x45, 0x44]))"

text \<open>
  File-wide replacement in the words of the specification: scanning from the left, every
  occurrence of the search bytes that does not overlap an earlier one is overwritten by
  \<open>rp\<close>. \<open>replace_patterns\<close> applies a list of (search, replacement) pairs in order, each
  replacement truncated or NUL-padded to the width of its search bytes; \<open>id_patterns\<close> is
  the list the anonymizer uses: the six fixed identifiers, each as ASCII and as UTF-16LE,
  then \<^verbatim>\<open>test\<close> by \<^verbatim>\<open>ANON\<close>.
\<close>

function replace_all :: "bytes \<Rightarrow> bytes \<Rightarrow> bytes \<Rightarrow> bytes" where
  "replace_all s rp [] = []"
| "replace_all s rp (x # xs) =
     (if s \<noteq> [] \<and> take (length s) (x # xs) = s
      then rp @ replace_all s rp (drop (length s) (x # xs))
      else x # replace_all s rp xs)"
  by pat_completeness auto
termination
  by (relation "measure (\<lambda>(s, rp, xs). length xs)") auto





section \<open>Evaluation and arithmetic lemmas\<close>

declare find_bytes.simps [simp del] tags_loop.simps [simp del] section_1_loop.simps [simp del]
  find_section_loop.simps [simp del] decimal.simps [simp del] section_1_tags.simps [simp del]
  replace_all.simps(2) [simp del]

lemma crc_rounds_8:
  "crc_rounds 8 c =
     crc_shift (crc_shift (crc_shift (crc_shift (crc_shift (crc_shift (crc_shift (crc_shift c)))))))"
  by (simp add: numeral_eq_Suc)

lemmas eval_defs = slice_def slice_assign_def pack_u16le_def pack_u16be_def pack_u32le_def
  encode_ascii_def encode_utf16le_def crc_shift_def crc_rounds_8 crc_byte_def
  calculate_crc_ccitt_def update_file_size_def update_crc_def save_anonymized_def
  find_bytes.simps replace_padded_def replace_loop.simps find_and_replace_text_def
  sensitive_tags_def removed_bytes_def redact_tag_def tags_loop.simps
  anonymize_section_1_tags_def anonymizer_header_def section_1_loop.simps
  anonymize_section_1_def original_ids_def replace_id_def anonymize_patient_data_def
  init_anonymous_id_def anonymize_def

lemma read_raw_numeral:
  "read_raw (numeral k) d p l = read_raw (Suc (pred_numeral k)) d p l"
  by (simp add: numeral_eq_Suc)

lemma read_deltas_numeral:
  "read_deltas (numeral k) d p l = read_deltas (Suc (pred_numeral k)) d p l"
  by (simp add: numeral_eq_Suc)

lemma read_leads_numeral:
  "read_leads (numeral k) c d p l = read_leads (Suc (pred_numeral k)) c d p l"
  by (simp add: numeral_eq_Suc)

lemmas reader_defs = slice_def reader_header_def parse_sections_loop.simps parse_sections_def
  read_file_def init_reader_def extract_ecg_data_def generate_sample_data_def
  parse_rhythm_data_def read_lead_def ecg_matrix_def parse_lead_info_def Let_def
  read_raw_numeral read_deltas_numeral read_leads_numeral

lemma and_mask16_bound: "x AND 65535 < (65536::nat)"
proof -
  have "int x AND 65535 \<le> 65535"
    by (rule AND_upper2) simp
  then show ?thesis
    by (simp add: and_nat_def nat_less_iff)
qed

lemma crc_shift_bound: "crc_shift c < 65536"
  by (simp add: crc_shift_def and_mask16_bound)

lemma crc_rounds_bound: "c < 65536 \<Longrightarrow> crc_rounds k c < 65536"
  by (induction k arbitrary: c) (simp_all add: crc_shift_bound)

lemma crc_byte_bound: "crc_byte c b < 65536"
proof -
  have "crc_rounds (Suc 7) x < 65536" for x
    by (simp only: crc_rounds.simps crc_rounds_bound crc_shift_bound)
  moreover have "(8::nat) = Suc 7" by simp
  ultimately show ?thesis
    by (simp only: crc_byte_def)
qed

lemma foldl_crc_bound: "c < 65536 \<Longrightarrow> foldl crc_byte c d < 65536"
  by (induction d arbitrary: c) (simp_all add: crc_byte_bound)

lemma calculate_crc_ccitt_bound: "calculate_crc_ccitt d < 65536"
  by (simp add: calculate_crc_ccitt_def foldl_crc_bound)

lemma split256: "m = m mod 256 + 256 * (m div 256)" for m :: nat
  by simp

lemma unpack_pack_u32le:
  assumes "n < 4294967296"
  shows "\<exists>b. pack_u32le n = Some b \<and> length b = 4 \<and> unpack_u32le b = Some n"
proof -
  have d1: "n div 256 div 256 = n div 65536" by (simp add: div_mult2_eq)
  have d2: "n div 65536 div 256 = n div 16777216" by (simp add: div_mult2_eq)
  have e1: "n = n mod 256 + 256 * (n div 256)" by (rule split256)
  have e2: "n div 256 = n div 256 mod 256 + 256 * (n div 65536)"
    using split256 [of "n div 256"] unfolding d1 .
  have e3: "n div 65536 = n div 65536 mod 256 + 256 * (n div 16777216)"
    using split256 [of "n div 65536"] unfolding d2 .
  have lt: "n div 16777216 < 256" using assms by simp
  have s: "n mod 256 + 256 * (n div 256 mod 256) + 65536 * (n div 65536 mod 256)
          + 16777216 * (n div 16777216) = n"
    using e1 e2 e3 by linarith
  have u: "unat (word_of_nat (n div 16777216) :: byte) = n div 16777216"
    using lt by (simp add: unat_of_nat)
  show ?thesis
    using assms s u by (simp add: pack_u32le_def unat_of_nat)
qed

lemma unpack_pack_u16le:
  "n < 65536 \<Longrightarrow> \<exists>b. pack_u16le n = Some b \<and> length b = 2 \<and> unpack_u16le b = Some n"
  by (simp add: pack_u16le_def unat_of_nat)

section \<open>Finalisation: file size and CRC\<close>

text \<open>
  On a buffer of at least six bytes (and below \<open>2^32\<close>) the two finalisation writes keep
  the length and leave the header consistent with the buffer.
\<close>

lemma save_anonymized_invariant:
  assumes "6 \<le> length d" and "length d < 4294967296"
  shows "\<exists>out. save_anonymized d = Inr out \<and> length out = length d \<and>
           unpack_u32le (slice out 2 6) = Some (length out) \<and>
           unpack_u16le (slice out 0 2) = Some (calculate_crc_ccitt (slice out 2 (length out)))"
proof -
  obtain b where b: "pack_u32le (length d) = Some b" "length b = 4"
      "unpack_u32le b = Some (length d)"
    using unpack_pack_u32le [OF assms(2)] by blast
  define d1 where "d1 = take 2 d @ b @ drop 6 d"
  have ufs: "update_file_size d = Inr d1"
    using assms(1) b(1) by (simp add: update_file_size_def slice_assign_def d1_def)
  have len1: "length d1 = length d"
    using assms(1) b(2) by (simp add: d1_def)
  obtain c where c: "pack_u16le (calculate_crc_ccitt (slice d1 2 (length d1))) = Some c"
      "length c = 2" "unpack_u16le c = Some (calculate_crc_ccitt (slice d1 2 (length d1)))"
    using unpack_pack_u16le [OF calculate_crc_ccitt_bound] by blast
  define out where "out = c @ drop 2 d1"
  have uc: "update_crc d1 = Inr out"
    using assms(1) c(1) len1 by (simp add: update_crc_def slice_assign_def out_def)
  have len: "length out = length d"
    using assms(1) c(2) len1 by (simp add: out_def)
  have tail: "slice out 2 (length out) = slice d1 2 (length d1)"
    using c(2) len len1 by (simp add: slice_def out_def)
  have hd2: "slice out 0 2 = c"
    using c(2) by (simp add: slice_def out_def)
  have sz: "slice out 2 6 = b"
    using c(2) b(2) assms(1) by (simp add: slice_def out_def d1_def)
  show ?thesis
    using ufs uc len tail hd2 sz b(3) c(3) by (simp add: save_anonymized_def)
qed

text \<open>
  Claim C2 (size and CRC fields of every output). On \<open>short_file\<close> the call returns, but
  the size write \<^verbatim>\<open>data[2:6] = pack(5)\<close> replaces the three bytes \<open>[2,5)\<close> by four: the output
  is six bytes long while its size field holds 5. The CRC field does match.
\<close>

theorem short_file_size_field_mismatch:
  "anonymize None short_file = Some (Inr [0x85, 0x38, 5, 0, 0, 0]) \<and>
   length [0x85, 0x38, 5, 0, 0, 0 :: byte] = 6 \<and>
   unpack_u32le (slice [0x85, 0x38, 5, 0, 0, 0] 2 6) = Some 5 \<and>
   unpack_u16le (slice [0x85, 0x38, 5, 0, 0, 0] 0 2) =
     Some (calculate_crc_ccitt (slice [0x85, 0x38, 5, 0, 0, 0] 2 6))"
  by (simp add: eval_defs short_file_def)


section \<open>The Reader's walk on a section of declared size 0\<close>

text \<open>
  With a non-zero id and size 0 the loop body adds 0 to the pointer and reads the same
  header again: the walk returns nothing, whatever the reader state.
\<close>

lemma zero_size_section_never_returns:
  assumes "int p < int (length d) - 10"
    and "fst (reader_header d p) = Some sid" and "sid \<noteq> 0"
    and "snd (reader_header d p) = Some 0"
  shows "parse_sections_loop d p r = None"
proof -
  have stuck: "\<not> (d' = d \<and> p' = p)"
    if run: "parse_sections_loop d' p' r' = Some y" for d' p' r' y
  proof (rule parse_sections_loop.raw_induct
           [where P = "\<lambda>d' p' r' y. \<not> (d' = d \<and> p' = p)", OF _ run], goal_cases)
    case (1 f d' p' r' y)
    show ?case
    proof
      assume eq: "d' = d \<and> p' = p"
      have "p + 7 < length d" using assms(1) by linarith
      with 1(2) eq assms obtain r'' where "f d p r'' = Some y"
        by (simp add: Let_def split: if_splits)
      with 1(1) show False by blast
    qed
  qed
  show ?thesis
  proof (cases "parse_sections_loop d p r")
    case None
    then show ?thesis .
  next
    case (Some y)
    with stuck show ?thesis by blast
  qed
qed

text \<open>
  Claim C4 (the strict Reader's walk terminates; size 0 ends it). On \<open>zero_size_file\<close>
  the Reader's walk, and so \<^verbatim>\<open>read_file\<close>, never returns. The Verifier's walk on the same
  file does return: reading two bytes further on, it decodes id 0 and size 16842752, steps
  past the end of the buffer and leaves by its loop bound.
\<close>

theorem reader_walk_never_returns_on_zero_size:
  "parse_sections zero_size_file init_reader = None \<and>
   read_file zero_size_file = None \<and>
   find_section zero_size_file 1 = Inr None"
proof -
  have "parse_sections_loop zero_size_file 6 init_reader = None"
    by (rule zero_size_section_never_returns [where sid = 2])
       (simp_all add: zero_size_file_def reader_header_def slice_def)
  then show ?thesis
    by (simp add: parse_sections_def read_file_def zero_size_file_def slice_def
        find_section_def find_section_loop.simps verifier_header_def)
qed

section \<open>Bytes outside Section 1 that the anonymizer rewrites or leaves\<close>

text \<open>
  Claim C1 (Section 3 and Section 6 bytes are never modified; the waveform survives).
  The file-wide replacement of \<^verbatim>\<open>test\<close> by \<^verbatim>\<open>ANON\<close> rewrites the four sample bytes of
  \<open>waveform_file\<close>, which lie in Section 6: the section's bytes differ and the Reader
  decodes different samples from the output.
\<close>

theorem waveform_bytes_rewritten:
  "anonymize None waveform_file = Some (Inr waveform_file_anonymized) \<and>
   slice waveform_file 6 32 \<noteq> slice waveform_file_anonymized 6 32 \<and>
   (\<exists>r. read_file waveform_file = Some (Inr r) \<and>
        map_option sec_size (sections r 6) = Some 26 \<and>
        ecg_data r = Some (Decoded [[25972, 29811]]) \<and> sampling_rate r = 500) \<and>
   (\<exists>r. read_file waveform_file_anonymized = Some (Inr r) \<and>
        map_option sec_size (sections r 6) = Some 26 \<and>
        ecg_data r = Some (Decoded [[20033, 20047]]) \<and> sampling_rate r = 500)"
proof -
  have "anonymize None waveform_file = Some (Inr waveform_file_anonymized)"
    by (simp add: eval_defs waveform_file_def waveform_file_anonymized_def)
  moreover have "slice waveform_file 6 32 \<noteq> slice waveform_file_anonymized 6 32"
    by (simp add: slice_def waveform_file_def waveform_file_anonymized_def)
  moreover have "\<exists>r. read_file waveform_file = Some (Inr r) \<and>
        map_option sec_size (sections r 6) = Some 26 \<and>
        ecg_data r = Some (Decoded [[25972, 29811]]) \<and> sampling_rate r = 500"
    by (simp add: reader_defs waveform_file_def)
  moreover have "\<exists>r. read_file waveform_file_anonymized = Some (Inr r) \<and>
        map_option sec_size (sections r 6) = Some 26 \<and>
        ecg_data r = Some (Decoded [[20033, 20047]]) \<and> sampling_rate r = 500"
    by (simp add: reader_defs waveform_file_anonymized_def)
  ultimately show ?thesis by blast
qed

lemma anonymize_staff_file: "anonymize None staff_file = Some (Inr staff_file_anonymized)"
  by (simp add: eval_defs staff_file_def staff_file_anonymized_def)

text \<open>
  Claim C7 (acquisition date and time are overwritten by default). The constructor takes
  no \<^verbatim>\<open>anonymize_datetime\<close> option and tags 25 and 26 are not among the tags the walk
  rewrites: in the output of \<open>staff_file\<close> the date is still 2017-05-04 and the time still
  16:35:07.
\<close>

theorem acquisition_datetime_left_in_place:
  "anonymize None staff_file = Some (Inr staff_file_anonymized) \<and>
   slice staff_file_anonymized 28 32 = [0x07, 0xE1, 0x05, 0x04] \<and>
   unpack_u16be (slice staff_file_anonymized 28 30) = Some 2017 \<and>
   slice staff_file_anonymized 35 38 = [0x10, 0x23, 0x07]"
  using anonymize_staff_file by (simp add: slice_def staff_file_anonymized_def)

text \<open>
  Claim C8 (physician and technician names are zeroed). Tags 21 and 22 are not among the
  tags the walk rewrites: in the output of \<open>staff_file\<close> both values are unchanged.
\<close>

theorem physician_technician_left_in_place:
  "anonymize None staff_file = Some (Inr staff_file_anonymized) \<and>
   slice staff_file_anonymized 17 20 = [0x57, 0x68, 0x6F] \<and>
   slice staff_file_anonymized 23 25 = [0x41, 0x6C]"
  using anonymize_staff_file by (simp add: slice_def staff_file_anonymized_def)


section \<open>Delta-mode decoding of Section 6\<close>

lemma slice_append_mid: "slice (pre @ x @ post) (length pre) (length pre + length x) = x"
  by (simp add: slice_def)

lemma unat_byte: "n < 256 \<Longrightarrow> unat (of_nat n :: byte) = n"
  by (simp add: unat_of_nat)

lemma unat_s8: "unat (s8 x) = nat (x mod 256)"
proof -
  have "nat (x mod 256) < 256" by (simp add: nat_less_iff)
  then show ?thesis unfolding s8_def by (rule unat_byte)
qed

lemma unpack_s8_s8:
  assumes "- 128 \<le> x" and "x < 128"
  shows "unpack_s8 [s8 x] = Some x"
proof (cases "x < 0")
  case True
  have "(x + 256) mod 256 = x + 256" using assms True by (intro mod_pos_pos_trivial) auto
  then have "x mod 256 = x + 256" by simp
  then show ?thesis using assms True by (simp add: unat_s8 Let_def)
next
  case False
  then have "x mod 256 = x" using assms by (intro mod_pos_pos_trivial) auto
  then show ?thesis using assms False by (simp add: unat_s8 Let_def)
qed

lemma unpack_le16: "n < 65536 \<Longrightarrow> unpack_u16le (le16 n) = Some n"
  by (simp add: le16_def unat_of_nat)

lemma unpack_s16le_as_u16le:
  "unpack_s16le bs =
     map_option (\<lambda>n. if n \<ge> 32768 then int n - 65536 else int n) (unpack_u16le bs)"
  by (cases bs rule: unpack_u16le.cases) (simp_all add: Let_def)

lemma unpack_s16le_s16le:
  assumes "- 32768 \<le> v" and "v < 32768"
  shows "unpack_s16le (s16le v) = Some v"
proof -
  have b: "nat (v mod 65536) < 65536" by (simp add: nat_less_iff)
  have u: "unpack_u16le (le16 (nat (v mod 65536))) = Some (nat (v mod 65536))"
    using b by (rule unpack_le16)
  show ?thesis
  proof (cases "v < 0")
    case True
    have "(v + 65536) mod 65536 = v + 65536" using assms True by (intro mod_pos_pos_trivial) auto
    then have "v mod 65536 = v + 65536" by simp
    then show ?thesis using assms True u by (simp add: s16le_def unpack_s16le_as_u16le)
  next
    case False
    then have "v mod 65536 = v" using assms by (intro mod_pos_pos_trivial) auto
    then show ?thesis using assms False u by (simp add: s16le_def unpack_s16le_as_u16le)
  qed
qed

lemma unpack_le32:
  assumes "n < 4294967296"
  shows "unpack_u32le (le32 n) = Some n"
proof -
  obtain b where b: "pack_u32le n = Some b" "unpack_u32le b = Some n"
    using unpack_pack_u32le [OF assms] by blast
  have "n div 16777216 < 256" using assms by simp
  then have "le32 n = b" using b(1) assms by (simp add: le32_def pack_u32le_def)
  with b(2) show ?thesis by simp
qed

lemma read_deltas_exact:
  assumes "list_all (\<lambda>x. - 128 \<le> x \<and> x < 128) ds" and "acc \<noteq> []"
  shows "read_deltas (length ds) (pre @ map s8 ds @ post) (length pre) acc =
           (length pre + length ds, acc @ running (last acc) ds)"
  using assms
proof (induction ds arbitrary: pre acc)
  case Nil
  then show ?case by simp
next
  case (Cons x xs)
  have sl: "slice (pre @ map s8 (x # xs) @ post) (length pre) (length pre + 1) = [s8 x]"
    using slice_append_mid [of pre "[s8 x]" "map s8 xs @ post"] by simp
  have un: "unpack_s8 [s8 x] = Some x"
  proof (rule unpack_s8_s8)
    show "- 128 \<le> x" and "x < 128" using Cons.prems(1) by simp_all
  qed
  have IH: "read_deltas (length xs) ((pre @ [s8 x]) @ map s8 xs @ post) (length (pre @ [s8 x]))
              (acc @ [last acc + x]) =
            (length (pre @ [s8 x]) + length xs,
             (acc @ [last acc + x]) @ running (last (acc @ [last acc + x])) xs)"
    using Cons.prems(1) by (intro Cons.IH) simp_all
  have step: "read_deltas (length (x # xs)) (pre @ map s8 (x # xs) @ post) (length pre) acc =
      read_deltas (length xs) (pre @ map s8 (x # xs) @ post) (length pre + 1)
        (acc @ [last acc + x])"
    using Cons.prems(2) by (simp only: length_Cons read_deltas.simps sl un) simp
  show ?case
    unfolding step using IH by simp
qed

lemma length_le32 [simp]: "length (le32 n) = 4"
  by (simp add: le32_def)

lemma length_s16le [simp]: "length (s16le v) = 2"
  by (simp add: s16le_def le16_def)

lemma read_lead_delta_pair:
  assumes "c \<noteq> 0" and "delta_lead_ok (v, ds)"
  shows "read_lead c (pre @ delta_lead_bytes (v, ds) @ post) (length pre) =
           (length pre + length (delta_lead_bytes (v, ds)), delta_decoded (v, ds))"
proof -
  define d where "d = pre @ delta_lead_bytes (v, ds) @ post"
  have ok: "- 32768 \<le> v" "v < 32768" "length ds + 1 < 4294967296"
      "list_all (\<lambda>x. - 128 \<le> x \<and> x < 128) ds"
    using assms(2) by (simp_all add: delta_lead_ok_def)
  have d1: "d = pre @ le32 (length ds + 1) @ (s16le v @ map s8 ds @ post)"
    by (simp add: d_def delta_lead_bytes_def)
  have d2: "d = (pre @ le32 (length ds + 1)) @ s16le v @ (map s8 ds @ post)"
    by (simp add: d1)
  have d3: "d = (pre @ le32 (length ds + 1) @ s16le v) @ map s8 ds @ post"
    by (simp add: d1)
  have len: "length d = length pre + 6 + length ds + length post"
    by (simp add: d1)
  have "slice d (length pre) (length pre + length (le32 (length ds + 1))) = le32 (length ds + 1)"
    unfolding d1 by (rule slice_append_mid)
  then have n: "unpack_u32le (slice d (length pre) (length pre + 4)) = Some (length ds + 1)"
    using unpack_le32 [OF ok(3)] by simp
  have "slice d (length (pre @ le32 (length ds + 1)))
          (length (pre @ le32 (length ds + 1)) + length (s16le v)) = s16le v"
    unfolding d2 by (rule slice_append_mid)
  then have r: "unpack_s16le (slice d (length pre + 4) (length pre + 4 + 2)) = Some v"
    using unpack_s16le_s16le [OF ok(1,2)] by simp
  have p6: "length (pre @ le32 (length ds + 1) @ s16le v) = length pre + 4 + 2"
    by simp
  have rd0: "read_deltas (length ds) d (length (pre @ le32 (length ds + 1) @ s16le v)) [v] =
          (length (pre @ le32 (length ds + 1) @ s16le v) + length ds, [v] @ running (last [v]) ds)"
    unfolding d3 by (rule read_deltas_exact [OF ok(4)]) simp
  note rd = rd0 [unfolded p6]
  have cnt: "nat (min (int (length ds + 1) - 1) (int (length d) - int (length pre + 4 + 2))) = length ds"
    unfolding len by simp
  have le1: "length pre + 4 \<le> length d" and le2: "length pre + 4 + 2 \<le> length d"
    unfolding len by simp_all
  have "read_lead c d (length pre) = (length pre + 6 + length ds, v # running v ds)"
    unfolding read_lead_def
    by (simp only: le1 le2 n r rd cnt if_True option.case prod.case Let_def assms(1) if_False)
       simp
  then show ?thesis
    by (simp add: d_def delta_decoded_def delta_lead_bytes_def)
qed

lemma read_lead_delta:
  assumes "c \<noteq> 0" and "delta_lead_ok l"
  shows "read_lead c (pre @ delta_lead_bytes l @ post) (length pre) =
           (length pre + length (delta_lead_bytes l), delta_decoded l)"
  using assms read_lead_delta_pair [of c "fst l" "snd l" pre post] by simp

lemma delta_decoded_nonempty: "delta_decoded l \<noteq> []"
  by (simp add: delta_decoded_def)

lemma read_leads_delta:
  assumes "c \<noteq> 0" and "list_all delta_lead_ok ls"
  shows "read_leads (length ls) c (pre @ concat (map delta_lead_bytes ls) @ post) (length pre) acc =
           acc @ map delta_decoded ls"
  using assms(2)
proof (induction ls arbitrary: pre acc)
  case Nil
  then show ?case by simp
next
  case (Cons l ls)
  let ?d = "pre @ concat (map delta_lead_bytes (l # ls)) @ post"
  have d1: "?d = pre @ delta_lead_bytes l @ (concat (map delta_lead_bytes ls) @ post)"
    by simp
  have d2: "?d = (pre @ delta_lead_bytes l) @ concat (map delta_lead_bytes ls) @ post"
    by simp
  have one: "read_lead c ?d (length pre) = (length (pre @ delta_lead_bytes l), delta_decoded l)"
    unfolding d1 using read_lead_delta [of c l pre] assms(1) Cons.prems by simp
  have rest: "read_leads (length ls) c ?d (length (pre @ delta_lead_bytes l)) (acc @ [delta_decoded l]) =
      (acc @ [delta_decoded l]) @ map delta_decoded ls"
    unfolding d2 using Cons.prems by (intro Cons.IH) simp
  show ?case
    using one rest delta_decoded_nonempty [of l]
    by (simp only: length_Cons read_leads.simps Let_def prod.case if_True) simp
qed

lemma unpack_u16le_some: "length bs = 2 \<Longrightarrow> \<exists>n. unpack_u16le bs = Some n"
  by (cases bs rule: unpack_u16le.cases) simp_all

lemma slice_append_left: "hi \<le> length xs \<Longrightarrow> slice (xs @ ys) lo hi = slice xs lo hi"
  by (simp add: slice_def)

text \<open>
  Claim C9 (delta mode). For a Section 6 payload whose ten header bytes carry a non-zero
  compression flag and the lead count, followed by the leads in the layout above (and
  any trailing bytes), the Reader decodes every lead to its reference sample followed
  by the running sums of its deltas. The witness is the scenario of the claim: one
  lead, three samples, reference 100, deltas 5 and -10.
\<close>

theorem delta_mode_decoding:
  assumes "length hdr = 10" and "hdr ! 5 \<noteq> 0"
    and "unpack_u16le (slice hdr 6 8) = Some (length ls)"
    and "ls \<noteq> []" and "length ls \<le> 12"
    and "list_all delta_lead_ok ls"
  shows "ecg_data (parse_rhythm_data (hdr @ concat (map delta_lead_bytes ls) @ rest) r) =
           Some (Decoded (ecg_matrix (length ls) (map delta_decoded ls)))"
proof -
  define d where "d = hdr @ concat (map delta_lead_bytes ls) @ rest"
  have s02: "slice d 0 2 = slice hdr 0 2" and s24: "slice d 2 4 = slice hdr 2 4"
    and s68: "slice d 6 8 = slice hdr 6 8"
    using assms(1) by (simp_all add: d_def slice_append_left)
  have l02: "length (slice hdr 0 2) = 2" and l24: "length (slice hdr 2 4) = 2"
    using assms(1) by (simp_all add: slice_def)
  obtain a where a: "unpack_u16le (slice d 0 2) = Some a"
    using unpack_u16le_some [OF l02] unfolding s02 by blast
  obtain i where i: "unpack_u16le (slice d 2 4) = Some i"
    using unpack_u16le_some [OF l24] unfolding s24 by blast
  have n: "unpack_u16le (slice d 6 8) = Some (length ls)"
    using assms(3) by (simp add: s68)
  have len: "\<not> length d < 6"
    using assms(1) by (simp add: d_def)
  have c: "unat (d ! 5) \<noteq> 0"
    using assms(1,2) by (simp add: d_def nth_append unat_eq_0)
  have nl: "(if length ls = 0 \<or> length ls > 12 then 12 else length ls) = length ls"
    using assms(4,5) by simp
  have "read_leads (length ls) (unat (d ! 5)) d (length hdr) [] = [] @ map delta_decoded ls"
    unfolding d_def using c assms(6) by (intro read_leads_delta) (simp_all add: d_def)
  then have rl: "read_leads (length ls) (unat (d ! 5)) d 10 [] = map delta_decoded ls"
    using assms(1) by simp
  have ne: "map delta_decoded ls \<noteq> []"
    using assms(4) by simp
  have "ecg_data (parse_rhythm_data d r) =
          Some (Decoded (ecg_matrix (length ls) (map delta_decoded ls)))"
    unfolding parse_rhythm_data_def
    by (simp only: a i n len nl rl ne option.case Let_def if_True if_False not_False_eq_True)
       (simp split: if_splits)
  then show ?thesis by (simp add: d_def)
qed

theorem delta_mode_decoding_witness:
  "length [0, 0, 0xD0, 0x07, 0, 1, 1, 0, 1, 0 :: byte] = 10 \<and>
   [0, 0, 0xD0, 0x07, 0, 1, 1, 0, 1, 0 :: byte] ! 5 \<noteq> 0 \<and>
   unpack_u16le (slice [0, 0, 0xD0, 0x07, 0, 1, 1, 0, 1, 0] 6 8) = Some (length [(100 :: int, [5, - 10 :: int])]) \<and>
   list_all delta_lead_ok [(100, [5, - 10])] \<and>
   delta_lead_bytes (100, [5, - 10]) = [3, 0, 0, 0, 100, 0, 5, 0xF6] \<and>
   ecg_data (parse_rhythm_data
       ([0, 0, 0xD0, 0x07, 0, 1, 1, 0, 1, 0] @ [3, 0, 0, 0, 100, 0, 5, 0xF6]) init_reader) =
     Some (Decoded [[100, 105, 95]])"
proof -
  have h1: "length [0, 0, 0xD0, 0x07, 0, 1, 1, 0, 1, 0 :: byte] = 10" by simp
  have h2: "[0, 0, 0xD0, 0x07, 0, 1, 1, 0, 1, 0 :: byte] ! 5 \<noteq> 0" by simp
  have h3: "unpack_u16le (slice [0, 0, 0xD0, 0x07, 0, 1, 1, 0, 1, 0] 6 8) =
              Some (length [(100 :: int, [5, - 10 :: int])])"
    by (simp add: slice_def)
  have h4: "list_all delta_lead_ok [(100, [5, - 10])]"
    by (simp add: delta_lead_ok_def)
  have b: "delta_lead_bytes (100, [5, - 10]) = [3, 0, 0, 0, 100, 0, 5, 0xF6]"
    by (simp add: delta_lead_bytes_def le32_def s16le_def le16_def s8_def)
  have m: "ecg_matrix (length [(100 :: int, [5, - 10 :: int])]) (map delta_decoded [(100, [5, - 10])]) =
             [[100, 105, 95]]"
    by (simp add: ecg_matrix_def delta_decoded_def)
  show ?thesis
    using delta_mode_decoding [OF h1 h2 h3 _ _ h4, of "[]" init_reader] h1 h2 h3 h4 b m
    by simp
qed


section \<open>Section header layout in the three walks\<close>

lemma slice2: "p + 2 \<le> length d \<Longrightarrow> slice d p (p + 2) = [d ! p, d ! (p + 1)]"
proof -
  assume a: "p + 2 \<le> length d"
  then have "drop p d = d ! p # d ! (p + 1) # drop (p + 2) d"
    by (simp add: Cons_nth_drop_Suc)
  then show ?thesis by (simp add: slice_def)
qed










section \<open>The tag walk of Section 1\<close>

lemma tag_length_read:
  assumes "p + 3 \<le> length d"
  shows "unpack_u16le (slice d (p + 1) (p + 3)) =
           Some (unat (d ! (p + 1)) + 256 * unat (d ! (p + 2)))"
proof -
  have i: "p + 1 + 2 = p + 3" "p + 1 + 1 = p + 2" by simp_all
  have "slice d (p + 1) (p + 1 + 2) = [d ! (p + 1), d ! (p + 1 + 1)]"
    using assms by (intro slice2) simp
  then show ?thesis unfolding i by (simp only: unpack_u16le.simps)
qed

lemma length_removed_bytes: "length (removed_bytes n) = n"
proof -
  have "n < 8 * (n div 8 + 1)" by presburger
  then show ?thesis
    by (simp add: removed_bytes_def length_concat comp_def sum_list_replicate)
qed

lemma slice_assign_inside:
  "lo \<le> hi \<Longrightarrow> hi \<le> length d \<Longrightarrow> slice_assign d lo hi v = take lo d @ v @ drop hi d"
  by (simp add: slice_assign_def Let_def min_def max_def)

lemma slice_assign_tail:
  "lo \<le> length d \<Longrightarrow> length d \<le> hi \<Longrightarrow> slice_assign d lo hi v = take lo d @ v"
  by (simp add: slice_assign_def Let_def min_def max_def)

text \<open>What one redaction does to a sensitive tag whose value range is inside the buffer.\<close>

lemma redact_tag_in_range:
  assumes "encode_ascii aid = Some a" and "tag \<in> set sensitive_tags"
    and "p + 3 + n \<le> length d"
  shows "\<exists>d'. redact_tag aid p tag n d = Inr d' \<and> length d' = length d \<and>
              take (p + 3) d' = take (p + 3) d \<and> drop (p + 3 + n) d' = drop (p + 3 + n) d"
proof -
  have m: "min (p + 3 + n) (length d) = p + 3 + n"
    using assms(3) by simp
  consider "tag = 2" | "tag \<in> set [6, 7, 8, 9]" | "tag = 10"
    using assms(2) by (auto simp: sensitive_tags_def)
  then show ?thesis
  proof cases
    case 1
    let ?x = "take n a @ replicate (n - length (take n a)) 0"
    have lx: "length ?x = n" by simp
    have "redact_tag aid p tag n d = Inr (take (p + 3) d @ ?x @ drop (p + 3 + n) d)"
      using 1 assms(1,3) by (simp add: redact_tag_def Let_def m slice_assign_inside)
    moreover have "length (take (p + 3) d @ ?x @ drop (p + 3 + n) d) = length d"
      using assms(3) lx by simp
    moreover have "take (p + 3) (take (p + 3) d @ ?x @ drop (p + 3 + n) d) = take (p + 3) d"
      using assms(3) by simp
    moreover have "drop (p + 3 + n) (take (p + 3) d @ ?x @ drop (p + 3 + n) d) = drop (p + 3 + n) d"
      using assms(3) lx by simp
    ultimately show ?thesis by blast
  next
    case 2
    let ?x = "removed_bytes n"
    have lx: "length ?x = n" by (rule length_removed_bytes)
    have t: "tag \<noteq> 2" using 2 by auto
    have "redact_tag aid p tag n d = Inr (take (p + 3) d @ ?x @ drop (p + 3 + n) d)"
      using 2 t assms(3) by (simp add: redact_tag_def Let_def m slice_assign_inside)
    moreover have "length (take (p + 3) d @ ?x @ drop (p + 3 + n) d) = length d"
      using assms(3) lx by simp
    moreover have "take (p + 3) (take (p + 3) d @ ?x @ drop (p + 3 + n) d) = take (p + 3) d"
      using assms(3) by simp
    moreover have "drop (p + 3 + n) (take (p + 3) d @ ?x @ drop (p + 3 + n) d) = drop (p + 3 + n) d"
      using assms(3) lx by simp
    ultimately show ?thesis by blast
  next
    case 3
    show ?thesis
    proof (cases "n \<ge> 4")
      case False
      then show ?thesis using 3 by (simp add: redact_tag_def Let_def)
    next
      case True
      define d1 where "d1 = take (p + 3) d @ [0x07, 0x6C :: byte] @ drop (p + 3 + 2) d"
      have y: "pack_u16be 1900 = Some [0x07, 0x6C]"
        by (simp add: pack_u16be_def)
      have sa: "slice_assign d (p + 3) (p + 3 + 2) [0x07, 0x6C] = d1"
        using True assms(3) by (simp add: slice_assign_inside d1_def)
      have l1: "length d1 = length d"
        using True assms(3) by (simp add: d1_def)
      have r: "redact_tag aid p tag n d = Inr (d1[p + 3 + 2 := 1, p + 3 + 3 := 1])"
        using 3 True assms(3) l1 y sa by (simp add: redact_tag_def Let_def)
      have tk: "take (p + 3) (d1[p + 3 + 2 := 1, p + 3 + 3 := 1]) = take (p + 3) d"
        using assms(3) True by (simp add: d1_def)
      have "drop (p + 3 + n) (d1[p + 3 + 2 := 1, p + 3 + 3 := 1]) = drop (p + 3 + n) d1"
        using True by simp
      also have "\<dots> = drop (p + 3 + n) d"
      proof -
        define m where "m = n - 2"
        have m: "n = Suc (Suc m)" using True by (simp add: m_def)
        have "drop (p + 3 + n) d1 = drop m (drop (p + 3 + 2) d)"
          using assms(3) unfolding m d1_def by simp
        also have "\<dots> = drop (p + 3 + n) d"
          unfolding m by (simp add: ac_simps)
        finally show ?thesis .
      qed
      finally have dr: "drop (p + 3 + n) (d1[p + 3 + 2 := 1, p + 3 + 3 := 1]) = drop (p + 3 + n) d" .
      show ?thesis using r l1 tk dr by simp
    qed
  qed
qed

lemma section_1_tags_cong:
  assumes "length d' = length d" and "drop p d' = drop p d"
  shows "section_1_tags e p d' = section_1_tags e p d"
  using assms
proof (induction e p d arbitrary: d' rule: section_1_tags.induct)
  case (1 e p d)
  note len = "1.prems"(1) and dr = "1.prems"(2)
  have sl: "slice d' (p + 1) (p + 3) = slice d (p + 1) (p + 3)"
    using dr by (metis slice_def drop_drop add.commute)
  show ?case
  proof (cases "int p < e - 3")
    case False
    then show ?thesis
      by (simp add: section_1_tags.simps [of e p d] section_1_tags.simps [of e p d'])
  next
    case e3: True
    show ?thesis
    proof (cases "p < length d")
      case False
      then show ?thesis
        using len by (simp add: section_1_tags.simps [of e p d] section_1_tags.simps [of e p d'])
    next
      case pl: True
      have t: "d' ! p = d ! p"
        using pl len dr by (metis hd_drop_conv_nth)
      show ?thesis
      proof (cases "unat (d ! p) = 255")
        case True
        then show ?thesis
          using e3 pl len t
          by (simp add: section_1_tags.simps [of e p d] section_1_tags.simps [of e p d'])
      next
        case n255: False
        show ?thesis
        proof (cases "unpack_u16le (slice d (p + 1) (p + 3))")
          case None
          then show ?thesis
            using e3 pl n255 len t sl
            by (simp add: section_1_tags.simps [of e p d] section_1_tags.simps [of e p d'])
        next
          case (Some n)
          have dr': "drop (p + 3 + n) d' = drop (p + 3 + n) d"
            using dr by (metis drop_drop add.commute add.assoc)
          have "section_1_tags e (p + 3 + n) d' = section_1_tags e (p + 3 + n) d"
            using e3 pl n255 Some len dr' by (intro "1.IH") simp_all
          then show ?thesis
            using e3 pl n255 Some len t sl
            by (simp add: section_1_tags.simps [of e p d] section_1_tags.simps [of e p d'])
        qed
      qed
    qed
  qed
qed

lemma tags_in_range_cong:
  assumes "length d' = length d" and "drop p d' = drop p d"
  shows "tags_in_range e p d' = tags_in_range e p d"
  using assms section_1_tags_cong [OF assms] by (simp add: tags_in_range_def)

lemma tags_in_range_step:
  assumes "int p < e - 3" and "p < length d" and "unat (d ! p) \<noteq> 255"
    and "unpack_u16le (slice d (p + 1) (p + 3)) = Some n"
  shows "tags_in_range e p d =
           ((if unat (d ! p) \<in> set sensitive_tags then p + 3 + n \<le> length d else True) \<and>
            tags_in_range e (p + 3 + n) d)"
  using assms by (simp add: tags_in_range_def section_1_tags.simps [of e p d])

lemma tags_loop_length_in_range:
  assumes "encode_ascii aid = Some a" and "e \<le> int (length d)" and "tags_in_range e p d"
  shows "length (tags_loop aid e p d) = length d"
  using assms
proof (induction aid e p d rule: tags_loop.induct)
  case (1 aid e p d)
  note enc = "1.prems"(1) and el = "1.prems"(2) and tr = "1.prems"(3)
  show ?case
  proof (cases "int p < e - 3")
    case False
    then show ?thesis by (simp add: tags_loop.simps [of aid e p d])
  next
    case e3: True
    then have p3: "p + 3 \<le> length d" and pl: "p < length d"
      using el by linarith+
    obtain n where n: "unpack_u16le (slice d (p + 1) (p + 3)) = Some n"
      using tag_length_read [OF p3] by blast
    show ?thesis
    proof (cases "unat (d ! p) = 255")
      case True
      then show ?thesis using e3 pl by (simp add: tags_loop.simps [of aid e p d])
    next
      case n255: False
      have rng: "(if unat (d ! p) \<in> set sensitive_tags then p + 3 + n \<le> length d else True) \<and>
                 tags_in_range e (p + 3 + n) d"
        using tr tags_in_range_step [OF e3 pl n255 n] by simp
      show ?thesis
      proof (cases "unat (d ! p) \<in> set sensitive_tags")
        case False
        have "length (tags_loop aid e (p + 3 + n) d) = length d"
          using e3 pl n255 n False el enc rng by (intro "1.IH"(4)) simp_all
        then show ?thesis
          using e3 pl n255 n False by (simp add: tags_loop.simps [of aid e p d])
      next
        case sens: True
        then have "p + 3 + n \<le> length d" using rng by simp
        from redact_tag_in_range [OF enc sens this]
        obtain d' where d': "redact_tag aid p (unat (d ! p)) n d = Inr d'" "length d' = length d"
            "take (p + 3) d' = take (p + 3) d" "drop (p + 3 + n) d' = drop (p + 3 + n) d"
          by blast
        have "tags_in_range e (p + 3 + n) d'"
          using tags_in_range_cong [OF d'(2) d'(4)] rng by simp
        then have "length (tags_loop aid e (p + 3 + n) d') = length d'"
          using e3 pl n255 n sens d'(1,2) el enc by (intro "1.IH"(3)) simp_all
        then show ?thesis
          using e3 pl n255 n sens d' by (simp add: tags_loop.simps [of aid e p d])
      qed
    qed
  qed
qed

lemma take_slice_assign: "lo \<le> length d \<Longrightarrow> take lo (slice_assign d lo hi v) = take lo d"
  by (simp add: slice_assign_def Let_def min_def)

lemma unpack_u16le_length: "unpack_u16le bs = Some n \<Longrightarrow> length bs = 2"
  by (cases bs rule: unpack_u16le.cases) simp_all

lemma tag_length_in_buffer:
  assumes "unpack_u16le (slice d (p + 1) (p + 3)) = Some n"
  shows "p + 3 \<le> length d"
proof -
  have "length (slice d (p + 1) (p + 3)) = 2"
    using assms by (rule unpack_u16le_length)
  then show ?thesis by (simp add: slice_def)
qed

lemma redact_tag_frame:
  assumes "p + 3 \<le> length d"
    and "redact_tag aid p tag n d = Inl d' \<or> redact_tag aid p tag n d = Inr d'"
  shows "take (p + 3) d' = take (p + 3) d"
proof -
  have s: "take (p + 3) (slice_assign d (p + 3) hi v) = take (p + 3) d" for hi v
    using assms(1) by (rule take_slice_assign)
  have "pack_u16be 1900 = Some [0x07, 0x6C]"
    by (simp add: pack_u16be_def)
  then show ?thesis
    using assms(2) s
    by (auto simp: redact_tag_def Let_def split: if_splits option.splits)
qed

lemma tags_loop_frame: "q \<le> p + 3 \<Longrightarrow> take q (tags_loop aid e p d) = take q d"
proof (induction aid e p d rule: tags_loop.induct)
  case (1 aid e p d)
  note q = "1.prems"
  show ?case
  proof (cases "int p < e - 3")
    case False
    then show ?thesis by (simp add: tags_loop.simps [of aid e p d])
  next
    case e3: True
    show ?thesis
    proof (cases "p < length d")
      case False
      have "take q (tags_loop aid e (p + 1) d) = take q d"
        using e3 False q by (intro "1.IH"(5)) simp_all
      then show ?thesis using e3 False by (simp add: tags_loop.simps [of aid e p d])
    next
      case pl: True
      show ?thesis
      proof (cases "unat (d ! p) = 255")
        case True
        then show ?thesis using e3 pl by (simp add: tags_loop.simps [of aid e p d])
      next
        case n255: False
        show ?thesis
        proof (cases "unpack_u16le (slice d (p + 1) (p + 3))")
          case None
          have "take q (tags_loop aid e (p + 1) d) = take q d"
            using e3 pl n255 None q by (intro "1.IH"(1)) simp_all
          then show ?thesis
            using e3 pl n255 None by (simp add: tags_loop.simps [of aid e p d])
        next
          case (Some n)
          have p3: "p + 3 \<le> length d" using Some by (rule tag_length_in_buffer)
          show ?thesis
          proof (cases "unat (d ! p) \<in> set sensitive_tags")
            case False
            have "take q (tags_loop aid e (p + 3 + n) d) = take q d"
              using e3 pl n255 Some False q by (intro "1.IH"(4)) simp_all
            then show ?thesis
              using e3 pl n255 Some False by (simp add: tags_loop.simps [of aid e p d])
          next
            case sens: True
            show ?thesis
            proof (cases "redact_tag aid p (unat (d ! p)) n d")
              case (Inl d')
              have f: "take (p + 3) d' = take (p + 3) d"
                using redact_tag_frame [OF p3] Inl by blast
              have "take q d' = take q d"
                using f q by (metis min.absorb1 take_take)
              moreover have "take q (tags_loop aid e (p + 1) d') = take q d'"
                using e3 pl n255 Some sens Inl q by (intro "1.IH"(2)) simp_all
              ultimately show ?thesis
                using e3 pl n255 Some sens Inl by (simp add: tags_loop.simps [of aid e p d])
            next
              case (Inr d')
              have f: "take (p + 3) d' = take (p + 3) d"
                using redact_tag_frame [OF p3] Inr by blast
              have "take q d' = take q d"
                using f q by (metis min.absorb1 take_take)
              moreover have "take q (tags_loop aid e (p + 3 + n) d') = take q d'"
                using e3 pl n255 Some sens Inr q by (intro "1.IH"(3)) simp_all
              ultimately show ?thesis
                using e3 pl n255 Some sens Inr by (simp add: tags_loop.simps [of aid e p d])
            qed
          qed
        qed
      qed
    qed
  qed
qed

lemma slice_take: "slice (take hi x) lo hi = slice x lo hi"
  by (simp add: slice_def drop_take)

lemma name_tag_redacted:
  assumes "int p < e - 3" and "unat (d ! p) \<in> set [6, 7, 8, 9]"
    and "unpack_u16le (slice d (p + 1) (p + 3)) = Some n"
  shows "slice (tags_loop aid e p d) (p + 3) (p + 3 + n) = removed_bytes n"
proof -
  have p3: "p + 3 \<le> length d" using assms(3) by (rule tag_length_in_buffer)
  then have pl: "p < length d" by simp
  define d1 where "d1 = slice_assign d (p + 3) (min (p + 3 + n) (length d)) (removed_bytes n)"
  have sens: "unat (d ! p) \<in> set sensitive_tags" and n2: "unat (d ! p) \<noteq> 2"
    and n255: "unat (d ! p) \<noteq> 255"
    using assms(2) by (auto simp: sensitive_tags_def)
  have red: "redact_tag aid p (unat (d ! p)) n d = Inr d1"
    using assms(2) n2 by (simp add: redact_tag_def Let_def d1_def)
  have run: "tags_loop aid e p d = tags_loop aid e (p + 3 + n) d1"
    using assms(1,3) pl n255 sens red by (simp add: tags_loop.simps [of aid e p d])
  have d1': "d1 = take (p + 3) d @ removed_bytes n @ drop (min (p + 3 + n) (length d)) d"
    unfolding d1_def using p3 by (intro slice_assign_inside) simp_all
  have s1: "slice d1 (p + 3) (p + 3 + n) = removed_bytes n"
    using p3 by (simp add: d1' slice_def length_removed_bytes)
  have "slice (tags_loop aid e (p + 3 + n) d1) (p + 3) (p + 3 + n) =
        slice (take (p + 3 + n) (tags_loop aid e (p + 3 + n) d1)) (p + 3) (p + 3 + n)"
    by (simp only: slice_take)
  also have "\<dots> = slice (take (p + 3 + n) d1) (p + 3) (p + 3 + n)"
    by (simp add: tags_loop_frame)
  also have "\<dots> = removed_bytes n"
    using s1 by (simp only: slice_take)
  finally show ?thesis using run by simp
qed

lemma tag_past_end_grows:
  assumes "int p < e - 3" and "e \<le> int (length d)"
    and "unat (d ! p) \<in> set [2, 6, 7, 8, 9]"
    and "unpack_u16le (slice d (p + 1) (p + 3)) = Some n"
    and "length d < p + 3 + n" and "encode_ascii aid = Some a"
  shows "tags_loop aid e p d =
           take (p + 3) d @
           (if unat (d ! p) = 2 then take n a @ replicate (n - length (take n a)) 0
            else removed_bytes n)"
proof -
  have p3: "p + 3 \<le> length d" using assms(4) by (rule tag_length_in_buffer)
  then have pl: "p < length d" by simp
  let ?x = "if unat (d ! p) = 2 then take n a @ replicate (n - length (take n a)) 0
            else removed_bytes n"
  have sens: "unat (d ! p) \<in> set sensitive_tags" and n255: "unat (d ! p) \<noteq> 255"
    using assms(3) by (auto simp: sensitive_tags_def)
  have m: "min (p + 3 + n) (length d) = length d" using assms(5) by simp
  have red: "redact_tag aid p (unat (d ! p)) n d = Inr (take (p + 3) d @ ?x)"
    using assms(3,6) p3 by (auto simp: redact_tag_def Let_def m slice_assign_tail)
  have lx: "length ?x = n" by (simp add: length_removed_bytes)
  have stop: "\<not> int (p + 3 + n) < e - 3" using assms(2,5) by linarith
  have "tags_loop aid e (p + 3 + n) (take (p + 3) d @ ?x) = take (p + 3) d @ ?x"
    using stop by (simp add: tags_loop.simps [of aid e "p + 3 + n"])
  then show ?thesis
    using assms(1,4) pl n255 sens red by (simp add: tags_loop.simps [of aid e p d])
qed

section \<open>The file-wide replacement\<close>

lemma length_replace_padded: "length (replace_padded s r) = length s"
  by (simp add: replace_padded_def Let_def)

lemma length_replace_all:
  "length rp = length s \<Longrightarrow> length (replace_all s rp xs) = length xs"
proof (induction s rp xs rule: replace_all.induct)
  case (1 s rp)
  then show ?case by simp
next
  case (2 s rp x xs)
  show ?case
  proof (cases "s \<noteq> [] \<and> take (length s) (x # xs) = s")
    case True
    then have "length (take (length s) (x # xs)) = length s"
      by simp
    then have "length s \<le> length (x # xs)"
      by simp
    then show ?thesis
      using True 2 by (simp add: replace_all.simps(2))
  next
    case False
    then show ?thesis using 2 by (auto simp: replace_all.simps(2))
  qed
qed

lemma find_bytes_Some:
  "find_bytes d s i = Some j \<Longrightarrow>
     i \<le> j \<and> j + length s \<le> length d \<and> take (length s) (drop j d) = s \<and>
     (\<forall>k. i \<le> k \<and> k < j \<longrightarrow> take (length s) (drop k d) \<noteq> s)"
proof (induction d s i rule: find_bytes.induct)
  case (1 d sub i)
  show ?case
  proof (cases "i + length sub \<le> length d")
    case False
    then show ?thesis using "1.prems" by (simp add: find_bytes.simps [of d sub i])
  next
    case le: True
    show ?thesis
    proof (cases "slice d i (i + length sub) = sub")
      case True
      then show ?thesis
        using le "1.prems" by (auto simp: find_bytes.simps [of d sub i] slice_def)
    next
      case False
      then have "find_bytes d sub (i + 1) = Some j"
        using le "1.prems" by (simp add: find_bytes.simps [of d sub i])
      from "1.IH" [OF le False this]
      have ih: "i + 1 \<le> j" "j + length sub \<le> length d" "take (length sub) (drop j d) = sub"
          "\<forall>k. i + 1 \<le> k \<and> k < j \<longrightarrow> take (length sub) (drop k d) \<noteq> sub"
        by auto
      have "take (length sub) (drop k d) \<noteq> sub" if "i \<le> k" "k < j" for k
      proof (cases "k = i")
        case True
        then show ?thesis using False by (simp add: slice_def)
      next
        case False
        then show ?thesis using that ih(4) by auto
      qed
      then show ?thesis using ih by auto
    qed
  qed
qed

lemma find_bytes_None:
  "find_bytes d s i = None \<Longrightarrow> i \<le> k \<Longrightarrow> s \<noteq> [] \<Longrightarrow> take (length s) (drop k d) \<noteq> s"
proof (induction d s i rule: find_bytes.induct)
  case (1 d sub i)
  show ?case
  proof (cases "i + length sub \<le> length d")
    case False
    have "0 < length sub" using "1.prems"(3) by simp
    then have "length d - k < length sub"
      using False "1.prems"(2) by linarith
    then have "length (take (length sub) (drop k d)) < length sub"
      by simp
    then show ?thesis by auto
  next
    case le: True
    have ne: "slice d i (i + length sub) \<noteq> sub"
      using le "1.prems"(1) by (auto simp: find_bytes.simps [of d sub i] split: if_splits)
    then have nxt: "find_bytes d sub (i + 1) = None"
      using le "1.prems"(1) by (simp add: find_bytes.simps [of d sub i])
    show ?thesis
    proof (cases "k = i")
      case True
      then show ?thesis using ne by (simp add: slice_def)
    next
      case False
      then have "i + 1 \<le> k" using "1.prems"(2) by simp
      from "1.IH" [OF le ne nxt this "1.prems"(3)] show ?thesis .
    qed
  qed
qed

lemma replace_all_no_occurrence:
  "(\<And>k. take (length s) (drop k xs) \<noteq> s) \<Longrightarrow> replace_all s rp xs = xs"
proof (induction xs)
  case Nil
  then show ?case by simp
next
  case (Cons x xs)
  have h: "take (length s) (x # xs) \<noteq> s"
    using Cons.prems [of 0] by simp
  have "take (length s) (drop k xs) \<noteq> s" for k
    using Cons.prems [of "Suc k"] by simp
  then have "replace_all s rp xs = xs" by (rule Cons.IH)
  then show ?case using h by (simp add: replace_all.simps(2))
qed

lemma replace_all_first_occurrence:
  assumes "s \<noteq> []" and "take (length s) (drop m xs) = s"
    and "\<And>k. k < m \<Longrightarrow> take (length s) (drop k xs) \<noteq> s"
  shows "replace_all s rp xs = take m xs @ rp @ replace_all s rp (drop (m + length s) xs)"
  using assms(2,3)
proof (induction m arbitrary: xs)
  case 0
  then obtain x xs' where xs: "xs = x # xs'"
    using assms(1) by (cases xs) auto
  show ?case
    using 0(1) assms(1) unfolding xs by (simp add: replace_all.simps(2))
next
  case (Suc m)
  then obtain x xs' where xs: "xs = x # xs'"
    using assms(1) by (cases xs) auto
  have h: "take (length s) (x # xs') \<noteq> s"
    using Suc.prems(2) [of 0] by (simp add: xs)
  have a: "take (length s) (drop m xs') = s"
    using Suc.prems(1) by (simp add: xs)
  have b: "take (length s) (drop k xs') \<noteq> s" if "k < m" for k
    using Suc.prems(2) [of "Suc k"] that by (simp add: xs)
  have "replace_all s rp xs' = take m xs' @ rp @ replace_all s rp (drop (m + length s) xs')"
    using a b by (rule Suc.IH)
  then show ?case
    using h unfolding xs by (simp add: replace_all.simps(2))
qed

lemma replace_loop_refines:
  assumes "s \<noteq> []"
  shows "i \<le> length d \<Longrightarrow>
         \<exists>c'. replace_loop s r i c d =
                Some (take i d @ replace_all s (replace_padded s r) (drop i d), c')"
proof (induction "length d - i" arbitrary: i d c rule: less_induct)
  case less
  let ?rp = "replace_padded s r"
  show ?case
  proof (cases "find_bytes d s i")
    case None
    have "take (length s) (drop k (drop i d)) \<noteq> s" for k
      using find_bytes_None [OF None, of "i + k"] assms by (simp add: add.commute)
    then have "replace_all s ?rp (drop i d) = drop i d"
      by (rule replace_all_no_occurrence)
    then show ?thesis
      using None by (simp add: replace_loop.simps [of s r i c d])
  next
    case (Some j)
    from find_bytes_Some [OF Some]
    have j: "i \<le> j" "j + length s \<le> length d" "take (length s) (drop j d) = s"
        "\<And>k. i \<le> k \<and> k < j \<Longrightarrow> take (length s) (drop k d) \<noteq> s"
      by auto
    define d' where "d' = slice_assign d j (j + length s) ?rp"
    have d': "d' = take j d @ ?rp @ drop (j + length s) d"
      unfolding d'_def using j(2) by (intro slice_assign_inside) simp_all
    have len: "length d' = length d"
      using j(2) by (simp add: d' length_replace_padded)
    have pos: "0 < length s" using assms by simp
    have "\<exists>c'. replace_loop s r (j + length s) (c + 1) d' =
            Some (take (j + length s) d' @ replace_all s ?rp (drop (j + length s) d'), c')"
      using j(1,2) len pos by (intro less.hyps) linarith+
    then obtain c' where run: "replace_loop s r (j + length s) (c + 1) d' =
            Some (take (j + length s) d' @ replace_all s ?rp (drop (j + length s) d'), c')"
      by blast
    have tk: "take (j + length s) d' = take j d @ ?rp"
      using j(2) by (simp add: d' length_replace_padded)
    have dr: "drop (j + length s) d' = drop (j + length s) d"
      using j(2) by (simp add: d' length_replace_padded)
    have a: "take (length s) (drop (j - i) (drop i d)) = s"
      using j(1,3) by simp
    have b: "take (length s) (drop k (drop i d)) \<noteq> s" if "k < j - i" for k
      using j(4) [of "i + k"] that by (simp add: add.commute)
    have "replace_all s ?rp (drop i d) =
            take (j - i) (drop i d) @ ?rp @ replace_all s ?rp (drop (j - i + length s) (drop i d))"
      using assms a b by (rule replace_all_first_occurrence)
    also have "drop (j - i + length s) (drop i d) = drop (j + length s) d"
      using j(1) by simp
    finally have spec: "take i d @ replace_all s ?rp (drop i d) =
            take j d @ ?rp @ replace_all s ?rp (drop (j + length s) d)"
      using j(1) by (metis append.assoc le_add_diff_inverse take_add)
    show ?thesis
      using Some run tk dr spec
      by (simp add: replace_loop.simps [of s r i c d] d'_def)
  qed
qed


section \<open>Name tags\<close>

lemma anonymize_scenario_file:
  "anonymize (Some ''ANON000001'') scenario_file = Some (Inr scenario_file_anonymized)"
  by (simp add: eval_defs scenario_file_def scenario_file_anonymized_def)

lemma anonymize_name_file: "anonymize None name_file = Some (Inr name_file_anonymized)"
  by (simp add: eval_defs name_file_def name_file_anonymized_def)

text \<open>
  Claim C5 (name tags), as the code has it. Whenever the tag walk stands at a tag with
  id 6, 7, 8 or 9 and declared length \<open>n\<close>, the buffer the walk returns holds at the tag's
  value offset exactly \<open>n\<close> bytes: the eight-byte unit \<^verbatim>\<open>REMOVED\<close> plus a NUL byte,
  repeated and truncated to \<open>n\<close>. The witness is the scenario file: \<^verbatim>\<open>Smith\<close> becomes
  \<^verbatim>\<open>REMOV\<close> and \<^verbatim>\<open>John\<close> becomes \<^verbatim>\<open>REMO\<close>.
\<close>

theorem name_tag_overwritten:
  assumes "int p < e - 3" and "unat (d ! p) \<in> set [6, 7, 8, 9]"
    and "unpack_u16le (slice d (p + 1) (p + 3)) = Some n"
  shows "slice (tags_loop anonymous_id e p d) (p + 3) (p + 3 + n) =
           take n (concat (replicate (n div 8 + 1)
                     [0x52, 0x45, 0x4D, 0x4F, 0x56, 0x45, 0x44, 0x00])) \<and>
         length (slice (tags_loop anonymous_id e p d) (p + 3) (p + 3 + n)) = n"
  using name_tag_redacted [OF assms] length_removed_bytes [of n]
  by (simp add: removed_bytes_def)

theorem name_tag_overwritten_witness:
  "int 26 < 51 - 3 \<and> unat (scenario_file ! 26) = 8 \<and>
   unpack_u16le (slice scenario_file (26 + 1) (26 + 3)) = Some 5 \<and>
   slice scenario_file 29 34 = [0x53, 0x6D, 0x69, 0x74, 0x68] \<and>
   slice (tags_loop ''ANON000001'' 51 26 scenario_file) 29 34 = [0x52, 0x45, 0x4D, 0x4F, 0x56] \<and>
   anonymize (Some ''ANON000001'') scenario_file = Some (Inr scenario_file_anonymized) \<and>
   slice scenario_file_anonymized 17 26 = [0x41, 0x4E, 0x4F, 0x4E, 0x30, 0x30, 0x30, 0x30, 0x30] \<and>
   slice scenario_file_anonymized 29 34 = [0x52, 0x45, 0x4D, 0x4F, 0x56] \<and>
   slice scenario_file_anonymized 37 41 = [0x52, 0x45, 0x4D, 0x4F] \<and>
   slice scenario_file_anonymized 44 48 = [0x07, 0x6C, 0x01, 0x01]"
proof -
  have h1: "int 26 < 51 - 3" by simp
  have h2: "unat (scenario_file ! 26) \<in> set [6, 7, 8, 9]"
    by (simp add: scenario_file_def)
  have h3: "unpack_u16le (slice scenario_file (26 + 1) (26 + 3)) = Some 5"
    by (simp add: scenario_file_def slice_def)
  have s: "slice scenario_file 29 34 = [0x53, 0x6D, 0x69, 0x74, 0x68]"
    "unat (scenario_file ! 26) = 8"
    by (simp_all add: scenario_file_def slice_def)
  have o: "slice scenario_file_anonymized 17 26 = [0x41, 0x4E, 0x4F, 0x4E, 0x30, 0x30, 0x30, 0x30, 0x30]"
    "slice scenario_file_anonymized 29 34 = [0x52, 0x45, 0x4D, 0x4F, 0x56]"
    "slice scenario_file_anonymized 37 41 = [0x52, 0x45, 0x4D, 0x4F]"
    "slice scenario_file_anonymized 44 48 = [0x07, 0x6C, 0x01, 0x01]"
    by (simp_all add: scenario_file_anonymized_def slice_def)
  show ?thesis
    using name_tag_overwritten [OF h1 h2 h3, of "''ANON000001''"] h3 s o anonymize_scenario_file
    by simp
qed

text \<open>
  The claim as stated fails at a name of length 10: the eighth byte written is NUL, not
  the \<^verbatim>\<open>R\<close> of a repeated \<^verbatim>\<open>REMOVED\<close>.
\<close>

theorem name_tag_nul_separated:
  "anonymize None name_file = Some (Inr name_file_anonymized) \<and>
   slice name_file_anonymized 17 27 =
     [0x52, 0x45, 0x4D, 0x4F, 0x56, 0x45, 0x44, 0x00, 0x52, 0x45] \<and>
   removed_text 10 = [0x52, 0x45, 0x4D, 0x4F, 0x56, 0x45, 0x44, 0x52, 0x45, 0x4D] \<and>
   slice name_file_anonymized 17 27 \<noteq> removed_text 10"
  using anonymize_name_file
  by (simp add: name_file_anonymized_def slice_def removed_text_def)

section \<open>Buffer length\<close>

lemma find_and_replace_text_length:
  assumes "s \<noteq> []"
  shows "\<exists>d' c. find_and_replace_text s r d = Some (d', c) \<and> length d' = length d"
proof -
  obtain c where "replace_loop s r 0 0 d =
      Some (take 0 d @ replace_all s (replace_padded s r) (drop 0 d), c)"
    using replace_loop_refines [OF assms, of 0 d r 0] by auto
  then show ?thesis
    by (simp add: find_and_replace_text_def length_replace_all length_replace_padded)
qed

text \<open>
  Claim C10 (buffer length), as the code has it. With an ASCII anonymous id: if every
  redacted tag of the walk has its declared value range inside the buffer, the tag walk
  keeps the buffer length; the file-wide replacement keeps it for every non-empty search
  text; and when the walk stands at a tag 2, 6, 7, 8 or 9 whose declared length runs past
  the buffer end, the full-length replacement is assigned to the clamped range, which
  ends at the buffer end: the result is the bytes before the value followed by the
  replacement, \<open>pointer + 3 + tag_length\<close> bytes long, and the walk ends there.
\<close>

theorem buffer_length_under_redaction:
  "(encode_ascii anonymous_id = Some a \<and>
    tags_in_range (min (int start_offset + len) (int (length d))) start_offset d \<longrightarrow>
      length (anonymize_section_1_tags anonymous_id start_offset len d) = length d) \<and>
   (s \<noteq> [] \<longrightarrow> (\<exists>d' c. find_and_replace_text s r d = Some (d', c) \<and> length d' = length d)) \<and>
   (encode_ascii anonymous_id = Some a \<and> int p < e - 3 \<and> e \<le> int (length d) \<and>
    unat (d ! p) \<in> set [2, 6, 7, 8, 9] \<and>
    unpack_u16le (slice d (p + 1) (p + 3)) = Some n \<and> length d < p + 3 + n \<longrightarrow>
      tags_loop anonymous_id e p d =
        take (p + 3) d @
        (if unat (d ! p) = 2 then take n a @ replicate (n - length (take n a)) 0
         else removed_bytes n) \<and>
      length (tags_loop anonymous_id e p d) = p + 3 + n)"
proof (intro conjI impI)
  assume a: "encode_ascii anonymous_id = Some a \<and>
    tags_in_range (min (int start_offset + len) (int (length d))) start_offset d"
  show "length (anonymize_section_1_tags anonymous_id start_offset len d) = length d"
    unfolding anonymize_section_1_tags_def
    using a by (intro tags_loop_length_in_range [where a = a]) simp_all
next
  assume "s \<noteq> []"
  then show "\<exists>d' c. find_and_replace_text s r d = Some (d', c) \<and> length d' = length d"
    by (rule find_and_replace_text_length)
next
  assume a: "encode_ascii anonymous_id = Some a \<and> int p < e - 3 \<and> e \<le> int (length d) \<and>
    unat (d ! p) \<in> set [2, 6, 7, 8, 9] \<and>
    unpack_u16le (slice d (p + 1) (p + 3)) = Some n \<and> length d < p + 3 + n"
  then have g: "tags_loop anonymous_id e p d =
        take (p + 3) d @
        (if unat (d ! p) = 2 then take n a @ replicate (n - length (take n a)) 0
         else removed_bytes n)"
    by (intro tag_past_end_grows) simp_all
  show "tags_loop anonymous_id e p d =
        take (p + 3) d @
        (if unat (d ! p) = 2 then take n a @ replicate (n - length (take n a)) 0
         else removed_bytes n)"
    by (rule g)
  have "p + 3 \<le> length d"
    using a by (intro tag_length_in_buffer [of d p n]) simp
  then show "length (tags_loop anonymous_id e p d) = p + 3 + n"
    unfolding g by (simp add: length_removed_bytes)
qed

lemma anonymize_name_tail_file:
  "anonymize None name_tail_file = Some (Inr name_tail_file_anonymized)"
  by (simp add: eval_defs name_tail_file_def name_tail_file_anonymized_def)

lemma anonymize_dob_tail_file:
  "anonymize None dob_tail_file = Some (Inr dob_tail_file_anonymized)"
  by (simp add: eval_defs dob_tail_file_def dob_tail_file_anonymized_def)

theorem buffer_length_under_redaction_witness:
  "encode_ascii ''ANON000001'' = Some [0x41, 0x4E, 0x4F, 0x4E, 0x30, 0x30, 0x30, 0x30, 0x30, 0x31] \<and>
   tags_in_range (min (int 14 + 37) (int (length scenario_file))) 14 scenario_file \<and>
   length (anonymize_section_1_tags ''ANON000001'' 14 37 scenario_file) = length scenario_file \<and>
   (\<exists>d' c. find_and_replace_text [0x31, 0x32] [0x41] scenario_file = Some (d', c) \<and>
      length d' = length scenario_file) \<and>
   int 14 < 19 - 3 \<and> unat (name_tail_file ! 14) = 8 \<and>
   unpack_u16le (slice name_tail_file (14 + 1) (14 + 3)) = Some 5 \<and>
   length name_tail_file < 14 + 3 + 5 \<and>
   tags_loop ''ANON000001'' 19 14 name_tail_file =
     take 17 name_tail_file @ [0x52, 0x45, 0x4D, 0x4F, 0x56] \<and>
   length (tags_loop ''ANON000001'' 19 14 name_tail_file) = 22 \<and>
   length name_tail_file = 19 \<and>
   anonymize None name_tail_file = Some (Inr name_tail_file_anonymized) \<and>
   length name_tail_file_anonymized = 22"
proof -
  let ?a = "[0x41, 0x4E, 0x4F, 0x4E, 0x30, 0x30, 0x30, 0x30, 0x30, 0x31] :: bytes"
  have enc: "encode_ascii ''ANON000001'' = Some ?a"
    by (simp add: encode_ascii_def)
  have rng: "tags_in_range (min (int 14 + 37) (int (length scenario_file))) 14 scenario_file"
    by (simp add: tags_in_range_def section_1_tags.simps scenario_file_def slice_def
        sensitive_tags_def)
  have ne: "[0x31, 0x32 :: byte] \<noteq> []" by simp
  have g: "int 14 < 19 - 3" "19 \<le> int (length name_tail_file)"
    "unat (name_tail_file ! 14) \<in> set [2, 6, 7, 8, 9]"
    "unpack_u16le (slice name_tail_file (14 + 1) (14 + 3)) = Some 5"
    "length name_tail_file < 14 + 3 + 5"
    by (simp_all add: name_tail_file_def slice_def)
  have v: "unat (name_tail_file ! 14) = 8" "length name_tail_file = 19"
    "length name_tail_file_anonymized = 22" "removed_bytes 5 = [0x52, 0x45, 0x4D, 0x4F, 0x56]"
    by (simp_all add: name_tail_file_def name_tail_file_anonymized_def removed_bytes_def)
  note t = buffer_length_under_redaction
  show ?thesis
    using t [of "''ANON000001''" ?a 14 37 scenario_file "[0x31, 0x32]" "[0x41]" 0 0 0]
      t [of "''ANON000001''" ?a 0 0 name_tail_file "[0x31]" "[]" 14 19 5]
      enc rng ne g v anonymize_name_tail_file
    by simp
qed

text \<open>
  The claim as stated fails for tag 10: its branch writes the two year bytes into the
  range that exists and is then left by an \<^verbatim>\<open>IndexError\<close>; the buffer does not grow.
\<close>

theorem dob_tag_past_end_no_growth:
  "unat (dob_tail_file ! 14) = 10 \<and>
   unpack_u16le (slice dob_tail_file (14 + 1) (14 + 3)) = Some 4 \<and>
   length dob_tail_file < 14 + 3 + 4 \<and>
   length (anonymize_section_1 ''ANON000000'' dob_tail_file) = length dob_tail_file \<and>
   anonymize None dob_tail_file = Some (Inr dob_tail_file_anonymized) \<and>
   length dob_tail_file_anonymized = length dob_tail_file"
  using anonymize_dob_tail_file
  by (simp add: dob_tail_file_def dob_tail_file_anonymized_def slice_def eval_defs)

section \<open>The patterns replaced file-wide\<close>













end
